theory Spec2Isabelle
  imports Main "HOL-Library.Multiset" "HOL-Library.AList"
begin

section \<open>LJSpeech data preparation (recipes/LJSpeech/TTS/ljspeech\_prepare.py)\<close>

text \<open>
  A shallow embedding of the preparation script. Python lists are HOL lists, Python's
  unbounded integers are \<open>int\<close> (row indices and lengths, never negative, are \<open>nat\<close>),
  strings are \<open>string\<close>, dictionaries are maps (\<open>data_split\<close>) or association lists
  where the insertion order is written out (a manifest). Every exception the code can
  raise is a value of \<open>error\<close>, and a function that can raise returns \<open>error + 'a\<close>.
  The module random generator is an explicit state of an arbitrary type \<open>'g\<close>;
  \<open>random.shuffle\<close> and \<open>random.seed\<close> are parameters of the functions that use them.
\<close>

subsection \<open>Errors and Python primitives\<close>

datatype error =
    IndexError
  | KeyError
  | ZeroDivisionError
  | OverflowError
  | FileNotFoundError
  | FileExistsError
  | IsADirectoryError
  | NotADirectoryError
  | FormatError
  | AssertionError string

text \<open>Module constants (lines 24--30).\<close>

definition OPT_FILE :: string where "OPT_FILE = ''opt_ljspeech_prepare.pkl''"
definition METADATA_CSV :: string where "METADATA_CSV = ''metadata.csv''"
definition TRAIN_JSON :: string where "TRAIN_JSON = ''train.json''"
definition VALID_JSON :: string where "VALID_JSON = ''valid.json''"
definition TEST_JSON :: string where "TEST_JSON = ''test.json''"
definition WAVS :: string where "WAVS = ''wavs''"

text \<open>\<open>os.path.join a b\<close> of posixpath, for two components.\<close>

definition path_join :: "string \<Rightarrow> string \<Rightarrow> string" where
  "path_join a b =
     (if b \<noteq> [] \<and> hd b = CHR ''/'' then b
      else if a = [] \<or> last a = CHR ''/'' then a @ b
      else a @ ''/'' @ b)"

text \<open>\<open>needle in haystack\<close> on strings: \<open>needle\<close> occurs as a contiguous substring.\<close>

fun is_prefix :: "string \<Rightarrow> string \<Rightarrow> bool" where
  "is_prefix [] ys = True"
| "is_prefix (x # xs) [] = False"
| "is_prefix (x # xs) (y # ys) = (x = y \<and> is_prefix xs ys)"

fun str_contains :: "string \<Rightarrow> string \<Rightarrow> bool" where
  "str_contains needle [] = (needle = [])"
| "str_contains needle (c # cs) = (is_prefix needle (c # cs) \<or> str_contains needle cs)"

text \<open>\<open>s.split("-")[0]\<close>: the part of \<open>s\<close> before the first \<open>-\<close>, all of \<open>s\<close> when it has none.\<close>

definition split_dash_first :: "string \<Rightarrow> string" where
  "split_dash_first s = takeWhile (\<lambda>c. c \<noteq> CHR ''-'') s"

text \<open>
  \<open>xs[0:n]\<close> and \<open>del xs[0:n]\<close> for an integer \<open>n\<close>: a negative stop counts from the end
  and is clipped at 0, a stop beyond the end is the end.
\<close>

definition slice_stop :: "'a list \<Rightarrow> int \<Rightarrow> nat" where
  "slice_stop xs n = (if n < 0 then nat (int (length xs) + n) else nat n)"

definition py_take :: "'a list \<Rightarrow> int \<Rightarrow> 'a list" where
  "py_take xs n = take (slice_stop xs n) xs"

definition py_del :: "'a list \<Rightarrow> int \<Rightarrow> 'a list" where
  "py_del xs n = drop (slice_stop xs n) xs"

subsection \<open>\<open>int(a / b)\<close> on integers\<close>

text \<open>
  Python's \<open>a / b\<close> on two integers is the binary64 number nearest to the exact quotient
  (ties to the even significand), OverflowError when that is beyond the largest double,
  ZeroDivisionError when \<open>b = 0\<close>; \<open>int\<close> then truncates toward zero.
  \<open>bit_length n\<close> is Python's \<open>n.bit_length()\<close>. For the quotient of two positive
  naturals, \<open>quot_exponent a b\<close> is the \<open>e\<close> with \<open>2^e \<le> a / b < 2^(e+1)\<close>; the significand
  is \<open>a / b\<close> scaled by \<open>2^(52 - e)\<close> and rounded to an integer of 53 bits. (Below the
  normal range a double has fewer bits, but every such quotient and its rounding are
  below 1, and truncate to 0 either way.)
\<close>

fun bit_length :: "nat \<Rightarrow> nat" where
  "bit_length n = (if n = 0 then 0 else Suc (bit_length (n div 2)))"

declare bit_length.simps [simp del]

definition quot_exponent :: "nat \<Rightarrow> nat \<Rightarrow> int" where
  "quot_exponent a b =
     (let e0 = int (bit_length a) - int (bit_length b) in
      if (if 0 \<le> e0 then b * 2 ^ nat e0 \<le> a else b \<le> a * 2 ^ nat (- e0))
      then e0 else e0 - 1)"

definition round_half_even :: "nat \<Rightarrow> nat \<Rightarrow> nat" where
  "round_half_even num den =
     (let d = num div den; r = num mod den in
      if 2 * r < den then d
      else if den < 2 * r then d + 1
      else if even d then d else d + 1)"

definition float_div_trunc :: "nat \<Rightarrow> nat \<Rightarrow> error + nat" where
  "float_div_trunc a b =
     (if a = 0 then Inr 0
      else
        let s = 52 - quot_exponent a b in
        if 0 \<le> s then Inr (round_half_even (a * 2 ^ nat s) b div 2 ^ nat s)
        else
          let v = round_half_even a (b * 2 ^ nat (- s)) * 2 ^ nat (- s) in
          if 2 ^ 1024 \<le> v then Inl OverflowError else Inr v)"

definition int_truediv :: "int \<Rightarrow> int \<Rightarrow> error + int" where
  "int_truediv a b =
     (if b = 0 then Inl ZeroDivisionError
      else case float_div_trunc (nat \<bar>a\<bar>) (nat \<bar>b\<bar>) of
             Inl e \<Rightarrow> Inl e
           | Inr t \<Rightarrow> Inr (if (a < 0) = (b < 0) then int t else - int t))"

subsection \<open>Files\<close>

text \<open>
  A manifest entry (lines 268--275) and a manifest: the JSON object written by
  \<open>prepare_json\<close>, keys in insertion order. The configuration record \<open>conf\<close>
  (lines 78--84). The file system maps a path to a directory or to a file with its
  content: a parsed catalog (the rows \<open>csv.reader\<close> yields), a manifest, the pickled
  configuration, or text.
\<close>

record entry =
  wav :: string
  label :: string
  segment :: bool
  durations :: "string option"

type_synonym manifest = "(string \<times> entry) list"

record conf =
  conf_data_folder :: string
  conf_splits :: "string list"
  conf_split_ratio :: "int list"
  conf_save_folder :: string
  conf_seed :: int

datatype content =
    Csv "string list list"
  | Json manifest
  | Pkl conf
  | Text string

datatype node = Dir | File content

type_synonym filesys = "string \<Rightarrow> node option"

text \<open>
  \<open>os.path.dirname\<close> of posixpath: the path up to its last separator, without the
  separators that end it unless nothing else is left. \<open>rstrip_sep\<close> is
  \<open>rstrip('/')\<close>.
\<close>

definition all_sep :: "string \<Rightarrow> bool" where
  "all_sep p = list_all (\<lambda>c. c = CHR ''/'') p"

definition rstrip_sep :: "string \<Rightarrow> string" where
  "rstrip_sep p = rev (dropWhile (\<lambda>c. c = CHR ''/'') (rev p))"

definition dirname :: "string \<Rightarrow> string" where
  "dirname p =
     (let head = rev (dropWhile (\<lambda>c. c \<noteq> CHR ''/'') (rev p)) in
      if head \<noteq> [] \<and> \<not> all_sep head then rstrip_sep head else head)"

text \<open>
  A directory is stored under its path without the separators that end it; the empty
  path (the current directory, as the directory of a relative file name) and the root
  are directories of every file system. Paths are not normalised otherwise.
  \<open>os.path.exists\<close> is false for the empty path, and for a path that ends with a
  separator it asks for a directory.
\<close>

definition is_dir :: "filesys \<Rightarrow> string \<Rightarrow> bool" where
  "is_dir fs d = (d = [] \<or> all_sep d \<or> fs (rstrip_sep d) = Some Dir)"

definition path_exists :: "filesys \<Rightarrow> string \<Rightarrow> bool" where
  "path_exists fs p =
     (if p = [] then False
      else if all_sep p then True
      else if last p = CHR ''/'' then fs (rstrip_sep p) = Some Dir
      else fs p \<noteq> None)"

definition path_isfile :: "filesys \<Rightarrow> string \<Rightarrow> bool" where
  "path_isfile fs p = (case fs p of Some (File c) \<Rightarrow> True | _ \<Rightarrow> False)"

definition read_file :: "filesys \<Rightarrow> string \<Rightarrow> error + content" where
  "read_file fs p =
     (case fs p of
        None \<Rightarrow> Inl FileNotFoundError
      | Some Dir \<Rightarrow> Inl IsADirectoryError
      | Some (File c) \<Rightarrow> Inr c)"

text \<open>
  \<open>open(p, 'w')\<close> and what is written then: the path must not be a directory, and its
  directory must exist (FileNotFoundError) and be a directory (NotADirectoryError);
  the content replaces what the path held.
\<close>

definition write_file :: "filesys \<Rightarrow> string \<Rightarrow> content \<Rightarrow> error + filesys" where
  "write_file fs p c =
     (case fs p of
        Some Dir \<Rightarrow> Inl IsADirectoryError
      | _ \<Rightarrow>
          if is_dir fs (dirname p) then Inr (fs(p \<mapsto> File c))
          else
            (case fs (dirname p) of
               Some (File d) \<Rightarrow> Inl NotADirectoryError
             | _ \<Rightarrow> Inl FileNotFoundError))"

text \<open>
  \<open>os.makedirs\<close>: \<open>dir_prefixes\<close> lists the directories on the way to the path, the path
  itself last; the missing ones are created in this order. A file on the way is an
  error, as is a path that exists already; the empty path names no directory.
\<close>

fun dir_prefixes :: "string \<Rightarrow> string \<Rightarrow> string list" where
  "dir_prefixes pre [] = (if pre = [] \<or> last pre = CHR ''/'' then [] else [pre])"
| "dir_prefixes pre (c # cs) =
     (if c = CHR ''/'' \<and> pre \<noteq> [] \<and> last pre \<noteq> CHR ''/''
      then pre # dir_prefixes (pre @ [c]) cs
      else dir_prefixes (pre @ [c]) cs)"

fun mkdir_all :: "string list \<Rightarrow> filesys \<Rightarrow> error + filesys" where
  "mkdir_all [] fs = Inr fs"
| "mkdir_all (d # ds) fs =
     (case fs d of
        None \<Rightarrow> mkdir_all ds (fs(d \<mapsto> Dir))
      | Some Dir \<Rightarrow> (if ds = [] then Inl FileExistsError else mkdir_all ds fs)
      | Some (File c) \<Rightarrow> Inl (if ds = [] then FileExistsError else NotADirectoryError))"

definition makedirs :: "filesys \<Rightarrow> string \<Rightarrow> error + filesys" where
  "makedirs fs name =
     (if dir_prefixes [] name = [] then
        Inl (if name = [] then FileNotFoundError else FileExistsError)
      else mkdir_all (dir_prefixes [] name) fs)"

subsection \<open>\<open>split_sets\<close> (lines 177--241)\<close>

text \<open>
  The grouping loop, lines 203--215. The state is \<open>index_for_sessions\<close>,
  \<open>session_id_start\<close> and \<open>index_this_session\<close>; the loop runs over
  \<open>range(len(meta_csv))\<close>. \<open>meta_csv[i][0]\<close> raises IndexError on an empty row.
\<close>

fun group_loop ::
  "string list list \<Rightarrow> nat list \<Rightarrow> nat list list \<Rightarrow> string \<Rightarrow> nat list
     \<Rightarrow> error + nat list list" where
  "group_loop meta_csv [] index_for_sessions session_id_start index_this_session =
     Inr index_for_sessions"
| "group_loop meta_csv (i # rest) index_for_sessions session_id_start index_this_session =
     (case meta_csv ! i of
        [] \<Rightarrow> Inl IndexError
      | item_id # others \<Rightarrow>
          let session_id = split_dash_first item_id in
          if session_id = session_id_start then
            (if i = length meta_csv - 1
             then group_loop meta_csv rest (index_for_sessions @ [index_this_session @ [i]])
                    session_id_start (index_this_session @ [i])
             else group_loop meta_csv rest index_for_sessions
                    session_id_start (index_this_session @ [i]))
          else group_loop meta_csv rest (index_for_sessions @ [index_this_session])
                 session_id [i])"

definition group_sessions :: "string list list \<Rightarrow> error + nat list list" where
  "group_sessions meta_csv = group_loop meta_csv [0 ..< length meta_csv] [] ''LJ001'' []"

text \<open>
  \<open>int(session_len[j] * split_ratio[i] / sum(split_ratio))\<close>, lines 225 and 231:
  \<open>split_ratio[i]\<close> raises IndexError beyond the end of the list.
\<close>

definition n_snts :: "nat \<Rightarrow> int list \<Rightarrow> nat \<Rightarrow> error + int" where
  "n_snts session_len_j split_ratio i =
     (if i < length split_ratio
      then int_truediv (int session_len_j * split_ratio ! i) (sum_list split_ratio)
      else Inl IndexError)"

text \<open>
  \<open>random.shuffle\<close> permutes a list in place and advances the generator: a function from
  the generator state and the list to the shuffled list and the next state.
\<close>

type_synonym 'g shuffle = "'g \<Rightarrow> nat list \<Rightarrow> nat list \<times> 'g"

text \<open>
  Lines 224--227 and 230--235: shuffle the pool of session \<open>j\<close>, extend the split with
  its first \<open>n_snts\<close> indices and delete them from the pool.
\<close>

definition take_shuffled ::
  "'g shuffle \<Rightarrow> int list \<Rightarrow> nat \<Rightarrow> nat \<Rightarrow> nat list \<times> nat list \<times> 'g
     \<Rightarrow> error + nat list \<times> nat list \<times> 'g" where
  "take_shuffled sh split_ratio i session_len_j st =
     (case st of (acc, pool, g) \<Rightarrow>
        (case sh g pool of (pool', g') \<Rightarrow>
           (case n_snts session_len_j split_ratio i of
              Inl e \<Rightarrow> Inl e
            | Inr n \<Rightarrow> Inr (acc @ py_take pool' n, py_del pool' n, g'))))"

text \<open>
  The body of the inner loop, lines 223--239, for one session: \<open>acc\<close> is
  \<open>data_split[split]\<close>, \<open>pool\<close> is \<open>index_for_sessions[j]\<close>. The three tests compare
  \<open>split\<close> with three different strings, so at most one of them holds.
\<close>

definition split_session ::
  "'g shuffle \<Rightarrow> string list \<Rightarrow> int list \<Rightarrow> nat \<Rightarrow> string \<Rightarrow> nat
     \<Rightarrow> nat list \<times> nat list \<times> 'g \<Rightarrow> error + nat list \<times> nat list \<times> 'g" where
  "split_session sh splits split_ratio i split session_len_j st =
     (if split = ''train'' then take_shuffled sh split_ratio i session_len_j st
      else if split = ''valid'' then
        (if ''test'' \<in> set splits then take_shuffled sh split_ratio i session_len_j st
         else (case st of (acc, pool, g) \<Rightarrow> Inr (acc @ pool, pool, g)))
      else if split = ''test'' then
        (case st of (acc, pool, g) \<Rightarrow> Inr (acc @ pool, pool, g))
      else Inr st)"

text \<open>
  The inner loop over the sessions, line 222, on the pairs of \<open>session_len[j]\<close> and
  \<open>index_for_sessions[j]\<close>: it returns \<open>data_split[split]\<close>, the pools and the generator.
\<close>

fun sessions_loop ::
  "'g shuffle \<Rightarrow> string list \<Rightarrow> int list \<Rightarrow> nat \<Rightarrow> string \<Rightarrow> (nat \<times> nat list) list
     \<Rightarrow> nat list \<Rightarrow> 'g \<Rightarrow> error + nat list \<times> nat list list \<times> 'g" where
  "sessions_loop sh splits split_ratio i split [] acc g = Inr (acc, [], g)"
| "sessions_loop sh splits split_ratio i split ((len, pool) # rest) acc g =
     (case split_session sh splits split_ratio i split len (acc, pool, g) of
        Inl e \<Rightarrow> Inl e
      | Inr (acc', pool', g') \<Rightarrow>
          (case sessions_loop sh splits split_ratio i split rest acc' g' of
             Inl e \<Rightarrow> Inl e
           | Inr (acc'', pools', g'') \<Rightarrow> Inr (acc'', pool' # pools', g'')))"

text \<open>
  The outer loop, line 220: \<open>for i, split in enumerate(splits)\<close>, in the order of the
  list \<open>splits\<close>. \<open>todo\<close> is the part of \<open>splits\<close> still to process, \<open>i\<close> its position.
\<close>

fun splits_loop ::
  "'g shuffle \<Rightarrow> string list \<Rightarrow> int list \<Rightarrow> nat list \<Rightarrow> nat \<Rightarrow> string list
     \<Rightarrow> (string \<Rightarrow> nat list option) \<Rightarrow> nat list list \<Rightarrow> 'g
     \<Rightarrow> error + (string \<Rightarrow> nat list option) \<times> nat list list \<times> 'g" where
  "splits_loop sh splits split_ratio session_len i [] data_split pools g =
     Inr (data_split, pools, g)"
| "splits_loop sh splits split_ratio session_len i (split # todo) data_split pools g =
     (case sessions_loop sh splits split_ratio i split (zip session_len pools) [] g of
        Inl e \<Rightarrow> Inl e
      | Inr (acc, pools', g') \<Rightarrow>
          splits_loop sh splits split_ratio session_len (Suc i) todo
            (data_split(split \<mapsto> acc)) pools' g')"

text \<open>Lines 217--239 on the session groups.\<close>

definition allocate_splits ::
  "'g shuffle \<Rightarrow> 'g \<Rightarrow> nat list list \<Rightarrow> string list \<Rightarrow> int list
     \<Rightarrow> error + (string \<Rightarrow> nat list option) \<times> 'g" where
  "allocate_splits sh g index_for_sessions splits split_ratio =
     (case splits_loop sh splits split_ratio (map length index_for_sessions) 0 splits
             Map.empty index_for_sessions g of
        Inl e \<Rightarrow> Inl e
      | Inr (data_split, pools, g') \<Rightarrow> Inr (data_split, g'))"

text \<open>\<open>split_sets\<close> on the parsed catalog (lines 203--241), and on the file system.\<close>

definition split_rows ::
  "'g shuffle \<Rightarrow> 'g \<Rightarrow> string list list \<Rightarrow> string list \<Rightarrow> int list
     \<Rightarrow> error + (string \<Rightarrow> nat list option) \<times> 'g" where
  "split_rows sh g meta_csv splits split_ratio =
     (case group_sessions meta_csv of
        Inl e \<Rightarrow> Inl e
      | Inr index_for_sessions \<Rightarrow> allocate_splits sh g index_for_sessions splits split_ratio)"

definition split_sets ::
  "'g shuffle \<Rightarrow> 'g \<Rightarrow> filesys \<Rightarrow> string \<Rightarrow> string list \<Rightarrow> int list
     \<Rightarrow> error + ((string \<Rightarrow> nat list option) \<times> string list list) \<times> 'g" where
  "split_sets sh g fs data_folder splits split_ratio =
     (case read_file fs (path_join data_folder METADATA_CSV) of
        Inl e \<Rightarrow> Inl e
      | Inr (Csv meta_csv) \<Rightarrow>
          (case split_rows sh g meta_csv splits split_ratio of
             Inl e \<Rightarrow> Inl e
           | Inr (data_split, g') \<Rightarrow> Inr ((data_split, meta_csv), g'))
      | Inr other \<Rightarrow> Inl FormatError)"

subsection \<open>\<open>skip\<close> (lines 139--174)\<close>

definition split_files :: "string \<Rightarrow> string option" where
  "split_files =
     [''train'' \<mapsto> TRAIN_JSON, ''valid'' \<mapsto> VALID_JSON, ''test'' \<mapsto> TEST_JSON]"

text \<open>
  Modelled from the spec: \<open>load_pkl\<close> and \<open>save_pkl\<close> of speechbrain.dataio.dataio are
  not part of the source file. \<open>opt_ljspeech_prepare.pkl\<close> holds the persisted
  configuration record, \<open>save_pkl\<close> writes it and \<open>load_pkl\<close> reads it back; unpickling
  a file of another kind fails.
\<close>

definition load_pkl :: "filesys \<Rightarrow> string \<Rightarrow> error + conf" where
  "load_pkl fs p =
     (case read_file fs p of
        Inl e \<Rightarrow> Inl e
      | Inr (Pkl c) \<Rightarrow> Inr c
      | Inr other \<Rightarrow> Inl FormatError)"

definition save_pkl :: "filesys \<Rightarrow> conf \<Rightarrow> string \<Rightarrow> error + filesys" where
  "save_pkl fs c p = write_file fs p (Pkl c)"

text \<open>
  The loop of lines 159--161 with the flag \<open>skip\<close>; \<open>split_files[split]\<close> raises KeyError
  for a name other than train, valid and test.
\<close>

fun skip_loop :: "filesys \<Rightarrow> string \<Rightarrow> string list \<Rightarrow> bool \<Rightarrow> error + bool" where
  "skip_loop fs save_folder [] skip_flag = Inr skip_flag"
| "skip_loop fs save_folder (split # rest) skip_flag =
     (case split_files split of
        None \<Rightarrow> Inl KeyError
      | Some name \<Rightarrow>
          skip_loop fs save_folder rest
            (if \<not> path_isfile fs (path_join save_folder name) then False else skip_flag))"

definition skip :: "filesys \<Rightarrow> string list \<Rightarrow> string \<Rightarrow> conf \<Rightarrow> error + bool" where
  "skip fs splits save_folder cnf =
     (case skip_loop fs save_folder splits True of
        Inl e \<Rightarrow> Inl e
      | Inr skip_flag \<Rightarrow>
          if skip_flag then
            (if path_isfile fs (path_join save_folder OPT_FILE) then
               (case load_pkl fs (path_join save_folder OPT_FILE) of
                  Inl e \<Rightarrow> Inl e
                | Inr opts_old \<Rightarrow> Inr (opts_old = cnf))
             else Inr False)
          else Inr False)"

subsection \<open>\<open>prepare_json\<close> (lines 244--281)\<close>

text \<open>
  \<open>json_entry\<close> is the value stored for one index (lines 265--275); the test of line
  271 is \<open>"train" in json_file\<close>, on the whole path. \<open>json_loop\<close> is the loop of lines
  264--275 over \<open>seg_lst\<close>, with the dictionary \<open>json_dict\<close>: an assignment to a key
  already present replaces its value and keeps its position (\<open>AList.update\<close>).
  \<open>list(csv_reader)[index]\<close>, \<open>[0]\<close> and \<open>[2]\<close> raise IndexError out of range.
\<close>

definition json_entry ::
  "string \<Rightarrow> string \<Rightarrow> string list list \<Rightarrow> string option \<Rightarrow> nat \<Rightarrow> entry" where
  "json_entry json_file wavs_folder csv_reader durations_folder index =
     (let item_id = csv_reader ! index ! 0 in
      \<lparr> wav = path_join wavs_folder (item_id @ ''.wav''),
        label = csv_reader ! index ! 2,
        segment = (if str_contains ''train'' json_file then True else False),
        durations = (case durations_folder of
                       None \<Rightarrow> None
                     | Some d \<Rightarrow> Some (path_join d (item_id @ ''.npy''))) \<rparr>)"

fun json_loop ::
  "nat list \<Rightarrow> string \<Rightarrow> string \<Rightarrow> string list list \<Rightarrow> string option \<Rightarrow> manifest
     \<Rightarrow> error + manifest" where
  "json_loop [] json_file wavs_folder csv_reader durations_folder json_dict = Inr json_dict"
| "json_loop (index # rest) json_file wavs_folder csv_reader durations_folder json_dict =
     (if length csv_reader \<le> index then Inl IndexError
      else if length (csv_reader ! index) < 3 then Inl IndexError
      else json_loop rest json_file wavs_folder csv_reader durations_folder
             (AList.update (csv_reader ! index ! 0)
                (json_entry json_file wavs_folder csv_reader durations_folder index)
                json_dict))"

definition prepare_json ::
  "filesys \<Rightarrow> nat list \<Rightarrow> string \<Rightarrow> string \<Rightarrow> string list list \<Rightarrow> string option
     \<Rightarrow> error + filesys" where
  "prepare_json fs seg_lst json_file wavs_folder csv_reader durations_folder =
     (case json_loop seg_lst json_file wavs_folder csv_reader durations_folder [] of
        Inl e \<Rightarrow> Inl e
      | Inr json_dict \<Rightarrow> write_file fs json_file (Json json_dict))"

subsection \<open>\<open>create_symbol_file\<close> (lines 283--295)\<close>

text \<open>
  \<open>str.lower\<close> is a function of the Python library over all of Unicode; it is the
  parameter \<open>str_lower\<close> of \<open>create_symbol_file\<close>. \<open>ascii_lower\<close> is what it does to a
  string of ASCII characters: the letters A to Z are lowered and every other character
  is kept.
\<close>

definition lower_char :: "char \<Rightarrow> char" where
  "lower_char c =
     (if 65 \<le> (of_char c :: nat) \<and> (of_char c :: nat) \<le> 90
      then char_of ((of_char c :: nat) + 32) else c)"

definition ascii_lower :: "string \<Rightarrow> string" where
  "ascii_lower s = map lower_char s"

text \<open>
  Modelled from the spec: \<open>load_data_json\<close> of speechbrain.dataio.dataio is not part of
  the source file; it reads a manifest back into a dictionary.
\<close>

definition load_data_json :: "filesys \<Rightarrow> string \<Rightarrow> error + manifest" where
  "load_data_json fs p =
     (case read_file fs p of
        Inl e \<Rightarrow> Inl e
      | Inr (Json d) \<Rightarrow> Inr d
      | Inr other \<Rightarrow> Inl FormatError)"

text \<open>
  The loop of lines 291--293: \<open>char_set.update( *line.lower())\<close> adds every character of
  the lowered label. The set is kept as the list of its elements, each once.
\<close>

fun char_set_loop :: "(string \<Rightarrow> string) \<Rightarrow> manifest \<Rightarrow> char list \<Rightarrow> char list" where
  "char_set_loop str_lower [] char_set = char_set"
| "char_set_loop str_lower ((item_id, e) # rest) char_set =
     char_set_loop str_lower rest (fold List.insert (str_lower (label e)) char_set)"

text \<open>\<open>'\t'.join\<close> of one-character strings.\<close>

fun join_tab :: "char list \<Rightarrow> string" where
  "join_tab [] = []"
| "join_tab [c] = [c]"
| "join_tab (c # d # cs) = c # CHR 0x09 # join_tab (d # cs)"

text \<open>
  The order in which Python iterates over a set is not fixed by the program:
  \<open>set_order\<close>, a parameter, arranges the elements of the set for \<open>join\<close>.
\<close>

definition create_symbol_file ::
  "(string \<Rightarrow> string) \<Rightarrow> (char list \<Rightarrow> char list) \<Rightarrow> filesys \<Rightarrow> string \<Rightarrow> string
     \<Rightarrow> error + filesys" where
  "create_symbol_file str_lower set_order fs save_folder save_json_train =
     (let lexicon_path = path_join save_folder ''lexicon'' in
      if path_exists fs lexicon_path then Inr fs
      else
        (case load_data_json fs save_json_train of
           Inl e \<Rightarrow> Inl e
         | Inr data \<Rightarrow>
             write_file fs lexicon_path
               (Text (join_tab (set_order (char_set_loop str_lower data []))))))"

subsection \<open>\<open>prepare_ljspeech\<close> (lines 35--136)\<close>

text \<open>
  The world of the script: the file system, the random generator and the external
  commands invoked so far. \<open>random.seed\<close> is the parameter \<open>seed_rng\<close>; what an external
  command does to the file system is the parameter \<open>run_cmd\<close>. Log messages are left
  out.
\<close>

record 'g world =
  world_fs :: filesys
  world_rng :: 'g
  world_calls :: "string list list"

definition subprocess_call ::
  "(string list \<Rightarrow> filesys \<Rightarrow> filesys) \<Rightarrow> string list \<Rightarrow> 'g world \<Rightarrow> 'g world" where
  "subprocess_call run_cmd cmd w =
     w\<lparr> world_fs := run_cmd cmd (world_fs w), world_calls := world_calls w @ [cmd] \<rparr>"

text \<open>Lines 97--106.\<close>

definition fetch_durations ::
  "(string list \<Rightarrow> filesys \<Rightarrow> filesys) \<Rightarrow> string \<Rightarrow> (string \<Rightarrow> string option)
     \<Rightarrow> 'g world \<Rightarrow> string option \<times> 'g world" where
  "fetch_durations run_cmd data_folder kwargs w =
     (case kwargs ''duration_link'' of
        Some link \<Rightarrow>
          (let durations_folder = path_join data_folder ''durations'' in
           if \<not> path_exists (world_fs w) durations_folder then
             (Some durations_folder,
              subprocess_call run_cmd [''rm'', ''-r'', ''ljspeech_DFA_durations.zip'']
               (subprocess_call run_cmd [''mv'', ''durations'', durations_folder]
                 (subprocess_call run_cmd [''unzip'', ''-qq'', ''ljspeech_DFA_durations.zip'']
                   (subprocess_call run_cmd [''wget'', ''-q'', link] w))))
           else (Some durations_folder, w))
      | None \<Rightarrow> (None, w))"

text \<open>One of the three calls of lines 123--133: nothing when the split is not requested.\<close>

definition write_split ::
  "string \<Rightarrow> string list \<Rightarrow> (string \<Rightarrow> nat list option) \<Rightarrow> string \<Rightarrow> string
     \<Rightarrow> string list list \<Rightarrow> string option \<Rightarrow> filesys \<Rightarrow> error + filesys" where
  "write_split split splits data_split json_file wavs_folder meta_csv durations_folder fs0 =
     (if split \<in> set splits then
        (case data_split split of
           None \<Rightarrow> Inl KeyError
         | Some seg_lst \<Rightarrow>
             prepare_json fs0 seg_lst json_file wavs_folder meta_csv durations_folder)
      else Inr fs0)"

text \<open>Lines 113--136, after the check of \<open>skip\<close>.\<close>

definition run_preparation ::
  "'g shuffle \<Rightarrow> (string \<Rightarrow> string) \<Rightarrow> (char list \<Rightarrow> char list) \<Rightarrow> string \<Rightarrow> string
     \<Rightarrow> string list \<Rightarrow> int list \<Rightarrow> (string \<Rightarrow> string option) \<Rightarrow> conf \<Rightarrow> string option
     \<Rightarrow> 'g world \<Rightarrow> error + 'g world" where
  "run_preparation sh str_lower set_order data_folder save_folder splits split_ratio kwargs
     cnf durations_folder w =
     (let wavs_folder = path_join data_folder WAVS in
      if \<not> path_exists (world_fs w) (path_join data_folder METADATA_CSV)
      then Inl (AssertionError ''metadata.csv does not exist'')
      else if \<not> path_exists (world_fs w) wavs_folder
      then Inl (AssertionError ''wavs/ folder does not exist'')
      else
        (case split_sets sh (world_rng w) (world_fs w) data_folder splits split_ratio of
           Inl e \<Rightarrow> Inl e
         | Inr ((data_split, meta_csv), g') \<Rightarrow>
        (case write_split ''train'' splits data_split (path_join save_folder TRAIN_JSON)
                wavs_folder meta_csv durations_folder (world_fs w) of
           Inl e \<Rightarrow> Inl e
         | Inr fs1 \<Rightarrow>
        (case write_split ''valid'' splits data_split (path_join save_folder VALID_JSON)
                wavs_folder meta_csv durations_folder fs1 of
           Inl e \<Rightarrow> Inl e
         | Inr fs2 \<Rightarrow>
        (case write_split ''test'' splits data_split (path_join save_folder TEST_JSON)
                wavs_folder meta_csv durations_folder fs2 of
           Inl e \<Rightarrow> Inl e
         | Inr fs3 \<Rightarrow>
        (case (if kwargs ''create_symbol_list'' \<noteq> None
               then create_symbol_file str_lower set_order fs3 save_folder
                      (path_join save_folder TRAIN_JSON)
               else Inr fs3) of
           Inl e \<Rightarrow> Inl e
         | Inr fs4 \<Rightarrow>
        (case save_pkl fs4 cnf (path_join save_folder OPT_FILE) of
           Inl e \<Rightarrow> Inl e
         | Inr fs5 \<Rightarrow> Inr (w\<lparr> world_fs := fs5, world_rng := g' \<rparr>))))))))"

definition prepare_ljspeech ::
  "(int \<Rightarrow> 'g) \<Rightarrow> 'g shuffle \<Rightarrow> (string list \<Rightarrow> filesys \<Rightarrow> filesys) \<Rightarrow> (string \<Rightarrow> string)
     \<Rightarrow> (char list \<Rightarrow> char list) \<Rightarrow> string \<Rightarrow> string \<Rightarrow> string list \<Rightarrow> int list \<Rightarrow> int
     \<Rightarrow> bool \<Rightarrow> (string \<Rightarrow> string option) \<Rightarrow> 'g world \<Rightarrow> error + 'g world" where
  "prepare_ljspeech seed_rng sh run_cmd str_lower set_order data_folder save_folder splits
     split_ratio seed skip_prep kwargs w =
     (let w1 = w\<lparr> world_rng := seed_rng seed \<rparr> in
      if skip_prep then Inr w1
      else
        let cnf = \<lparr> conf_data_folder = data_folder, conf_splits = splits,
                    conf_split_ratio = split_ratio, conf_save_folder = save_folder,
                    conf_seed = seed \<rparr>
        in case (if \<not> path_exists (world_fs w1) save_folder
                 then makedirs (world_fs w1) save_folder else Inr (world_fs w1)) of
             Inl e \<Rightarrow> Inl e
           | Inr fs2 \<Rightarrow>
        (case fetch_durations run_cmd data_folder kwargs (w1\<lparr> world_fs := fs2 \<rparr>) of
           (durations_folder, w3) \<Rightarrow>
             (case skip (world_fs w3) splits save_folder cnf of
                Inl e \<Rightarrow> Inl e
              | Inr True \<Rightarrow> Inr w3
              | Inr False \<Rightarrow>
                  run_preparation sh str_lower set_order data_folder save_folder splits
                    split_ratio kwargs cnf durations_folder w3)))"

section \<open>Notions used to state the properties\<close>

text \<open>
  The session prefix of a row (line 207), and what the grouping is to produce: the
  groups are the maximal runs of rows with equal session prefix, in the order of the
  file. Their concatenation is the list of all row indices, no group is empty, the rows
  of a group have one prefix, and neighbouring groups have different prefixes.
\<close>

definition session_of :: "string list \<Rightarrow> string" where
  "session_of row = split_dash_first (hd row)"

definition maximal_runs :: "string list list \<Rightarrow> nat list list \<Rightarrow> bool" where
  "maximal_runs meta_csv groups \<longleftrightarrow>
     concat groups = [0 ..< length meta_csv]
     \<and> (\<forall>grp \<in> set groups. grp \<noteq> []
            \<and> (\<forall>x \<in> set grp. session_of (meta_csv ! x) = session_of (meta_csv ! hd grp)))
     \<and> successively
          (\<lambda>grp grp'. session_of (meta_csv ! last grp) \<noteq> session_of (meta_csv ! hd grp'))
          groups"

text \<open>
  \<open>random.shuffle\<close> rearranges the list it is given: the shuffled list has the same
  elements, each as often.
\<close>

definition shuffle_ok :: "'g shuffle \<Rightarrow> bool" where
  "shuffle_ok sh \<longleftrightarrow> (\<forall>g xs. mset (fst (sh g xs)) = mset xs)"

text \<open>A shuffle for the examples: rotate the list by the generator state.\<close>

definition rot_shuffle :: "nat shuffle" where
  "rot_shuffle g xs = (rotate g xs, Suc g)"

text \<open>
  A split takes the rest when it extends itself with the whole pool of a session and
  deletes nothing (lines 237 and 239): \<open>test\<close>, and \<open>valid\<close> when \<open>test\<close> is not requested.
  \<open>rest_last splits todo\<close>: no split of \<open>todo\<close> but the last takes the rest.
\<close>

definition takes_rest :: "string list \<Rightarrow> string \<Rightarrow> bool" where
  "takes_rest splits split \<longleftrightarrow>
     split = ''test'' \<or> (split = ''valid'' \<and> ''test'' \<notin> set splits)"

fun rest_last :: "string list \<Rightarrow> string list \<Rightarrow> bool" where
  "rest_last splits [] = True"
| "rest_last splits [split] = True"
| "rest_last splits (split # next_split # todo) =
     (\<not> takes_rest splits split \<and> rest_last splits (next_split # todo))"

text \<open>The dictionary in the result of \<open>split_sets\<close>; empty when it raised.\<close>

definition split_of ::
  "error + ((string \<Rightarrow> nat list option) \<times> string list list) \<times> 'g
     \<Rightarrow> string \<Rightarrow> nat list option" where
  "split_of result =
     (case result of Inl e \<Rightarrow> Map.empty | Inr ((data_split, meta_csv), g) \<Rightarrow> data_split)"

text \<open>
  The lists of different splits share no index; every index of every list is in \<open>U\<close>.
\<close>

definition disjoint_splits :: "(string \<Rightarrow> nat list option) \<Rightarrow> bool" where
  "disjoint_splits data_split \<longleftrightarrow>
     (\<forall>s t xs ys. s \<noteq> t \<and> data_split s = Some xs \<and> data_split t = Some ys
        \<longrightarrow> set xs \<inter> set ys = {})"

definition splits_within :: "(string \<Rightarrow> nat list option) \<Rightarrow> nat set \<Rightarrow> bool" where
  "splits_within data_split U \<longleftrightarrow> (\<forall>s xs. data_split s = Some xs \<longrightarrow> set xs \<subseteq> U)"

text \<open>
  The allocation in the fixed order train, valid, test, as the specification words it:
  each of the three splits, when requested, is allocated in that order, whatever its
  position in \<open>splits\<close>, with the ratio at its position in \<open>splits\<close> (\<open>index_of\<close>). One
  split is allocated as in the code (\<open>sessions_loop\<close>).
\<close>

fun index_of :: "string \<Rightarrow> string list \<Rightarrow> nat" where
  "index_of split [] = 0"
| "index_of split (s # rest) = (if s = split then 0 else Suc (index_of split rest))"

fun fixed_order_loop ::
  "'g shuffle \<Rightarrow> string list \<Rightarrow> int list \<Rightarrow> nat list \<Rightarrow> string list
     \<Rightarrow> (string \<Rightarrow> nat list option) \<Rightarrow> nat list list \<Rightarrow> 'g
     \<Rightarrow> error + (string \<Rightarrow> nat list option) \<times> nat list list \<times> 'g" where
  "fixed_order_loop sh splits split_ratio session_len [] data_split pools g =
     Inr (data_split, pools, g)"
| "fixed_order_loop sh splits split_ratio session_len (split # names) data_split pools g =
     (if split \<in> set splits then
        (case sessions_loop sh splits split_ratio (index_of split splits) split
                (zip session_len pools) [] g of
           Inl e \<Rightarrow> Inl e
         | Inr (acc, pools', g') \<Rightarrow>
             fixed_order_loop sh splits split_ratio session_len names
               (data_split(split \<mapsto> acc)) pools' g')
      else fixed_order_loop sh splits split_ratio session_len names data_split pools g)"

definition allocate_fixed_order ::
  "'g shuffle \<Rightarrow> 'g \<Rightarrow> nat list list \<Rightarrow> string list \<Rightarrow> int list
     \<Rightarrow> error + (string \<Rightarrow> nat list option) \<times> 'g" where
  "allocate_fixed_order sh g index_for_sessions splits split_ratio =
     (case fixed_order_loop sh splits split_ratio (map length index_for_sessions)
             [''train'', ''valid'', ''test''] Map.empty index_for_sessions g of
        Inl e \<Rightarrow> Inl e
      | Inr (data_split, pools, g') \<Rightarrow> Inr (data_split, g'))"

text \<open>Catalogs and file systems of the examples.\<close>

definition two_rows :: "string list list" where
  "two_rows = [[''LJ001-0001'', ''n1'', ''r1''], [''LJ001-0002'', ''n2'', ''r2'']]"

definition two_rows_fs :: filesys where
  "two_rows_fs = [''data/metadata.csv'' \<mapsto> File (Csv two_rows)]"

definition lj002_rows :: "string list list" where
  "lj002_rows = [[''LJ002-0001'', ''n1'', ''r1''], [''LJ002-0002'', ''n2'', ''r2'']]"

definition four_rows :: "string list list" where
  "four_rows = [[''LJ001-0001'', ''n1'', ''r1''], [''LJ001-0002'', ''n2'', ''r2''],
                [''LJ002-0001'', ''n3'', ''r3''], [''LJ002-0002'', ''n4'', ''r4'']]"

definition new_session_last_rows :: "string list list" where
  "new_session_last_rows =
     [[''LJ001-0001'', ''n1'', ''r1''], [''LJ001-0002'', ''n2'', ''r2''],
      [''LJ002-0001'', ''n3'', ''r3'']]"

definition one_row :: "string list list" where
  "one_row = [[''LJ001-0001'', ''n1'', ''r1'']]"

definition one_row_fs :: filesys where
  "one_row_fs = [''data/metadata.csv'' \<mapsto> File (Csv one_row)]"

definition scenario_rows :: "string list list" where
  "scenario_rows =
     map (\<lambda>k. [''LJ001-'' @ k, ''normalised'', ''raw''])
       [''0001'', ''0002'', ''0003'', ''0004'', ''0005'',
        ''0006'', ''0007'', ''0008'', ''0009'', ''0010'']
     @ map (\<lambda>k. [''LJ002-'' @ k, ''normalised'', ''raw''])
         [''0001'', ''0002'', ''0003'', ''0004'', ''0005'']"

definition scenario_fs :: filesys where
  "scenario_fs = [''data/metadata.csv'' \<mapsto> File (Csv scenario_rows)]"

text \<open>
  A save folder after a complete run for the splits train and valid, with the
  configuration of that run.
\<close>

definition example_conf :: conf where
  "example_conf =
     \<lparr> conf_data_folder = ''data'', conf_splits = [''train'', ''valid''],
       conf_split_ratio = [90, 10], conf_save_folder = ''save'', conf_seed = 1234 \<rparr>"

definition prepared_fs :: filesys where
  "prepared_fs =
     [''save'' \<mapsto> Dir,
      ''save/train.json'' \<mapsto> File (Json []),
      ''save/valid.json'' \<mapsto> File (Json []),
      ''save/opt_ljspeech_prepare.pkl'' \<mapsto> File (Pkl example_conf)]"

text \<open>Two rows with the same item identifier, and a training manifest of two labels.\<close>

definition same_id_rows :: "string list list" where
  "same_id_rows = [[''LJ001-0001'', ''n'', ''first''], [''LJ001-0001'', ''n'', ''second'']]"

definition hello_world_manifest :: manifest where
  "hello_world_manifest =
     [(''LJ001-0001'', \<lparr> wav = ''wavs/LJ001-0001.wav'', label = ''Hello'',
                         segment = True, durations = None \<rparr>),
      (''LJ001-0002'', \<lparr> wav = ''wavs/LJ001-0002.wav'', label = ''World'',
                         segment = True, durations = None \<rparr>)]"

definition hello_world_fs :: filesys where
  "hello_world_fs =
     [''save'' \<mapsto> Dir, ''save/train.json'' \<mapsto> File (Json hello_world_manifest)]"

section \<open>Properties\<close>

subsection \<open>The grouping loop of \<open>split_sets\<close>\<close>

lemma group_loop_same:
  "meta ! i \<noteq> [] \<Longrightarrow> session_of (meta ! i) = start \<Longrightarrow> i \<noteq> length meta - 1 \<Longrightarrow>
     group_loop meta (i # rest) S start this = group_loop meta rest S start (this @ [i])"
  by (cases "meta ! i") (simp_all add: session_of_def)

lemma group_loop_same_last:
  "meta ! i \<noteq> [] \<Longrightarrow> session_of (meta ! i) = start \<Longrightarrow> i = length meta - 1 \<Longrightarrow>
     group_loop meta (i # rest) S start this
       = group_loop meta rest (S @ [this @ [i]]) start (this @ [i])"
  by (cases "meta ! i") (simp_all add: session_of_def)

lemma group_loop_switch:
  "meta ! i \<noteq> [] \<Longrightarrow> session_of (meta ! i) \<noteq> start \<Longrightarrow>
     group_loop meta (i # rest) S start this
       = group_loop meta rest (S @ [this]) (session_of (meta ! i)) [i]"
  by (cases "meta ! i") (simp_all add: session_of_def)

text \<open>In every case the groups are a prefix of the row indices, in order.\<close>

lemma group_loop_prefix:
  assumes "group_loop meta [i ..< n] S start this = Inr gs"
    and "concat S @ this = [0 ..< i]" and "i \<le> n" and "n = length meta"
  shows "\<exists>m \<le> n. concat gs = [0 ..< m]"
  using assms
proof (induction "n - i" arbitrary: i S start this)
  case 0
  then have "i = n" by simp
  then have "[i ..< n] = []" by simp
  with 0(2) have gs: "gs = S" by simp
  have "length (concat S) \<le> n"
    using arg_cong [OF 0(3), of length] \<open>i = n\<close> by simp
  moreover have "concat S = take (length (concat S)) [0 ..< i]"
    unfolding 0(3) [symmetric] by simp
  then have "concat S = [0 ..< length (concat S)]"
    using \<open>length (concat S) \<le> n\<close> \<open>i = n\<close> by (simp add: take_upt)
  ultimately show ?case unfolding gs by blast
next
  case (Suc k)
  then have lt: "i < n" by simp
  then have u: "[i ..< n] = i # [Suc i ..< n]" by (simp add: upt_conv_Cons)
  show ?case
  proof (cases "meta ! i")
    case Nil
    with Suc.prems(1) u show ?thesis by simp
  next
    case (Cons item_id others)
    then have ne: "meta ! i \<noteq> []" by simp
    show ?thesis
    proof (cases "session_of (meta ! i) = start")
      case same: True
      show ?thesis
      proof (cases "i = length meta - 1")
        case True
        with lt Suc.prems(4) have e: "[Suc i ..< n] = []" by simp
        from Suc.prems(1) have "gs = S @ [this @ [i]]"
          unfolding u group_loop_same_last [OF ne same True] e by simp
        then have "concat gs = [0 ..< Suc i]" using Suc.prems(2) by simp
        then show ?thesis using lt by (intro exI [of _ "Suc i"]) simp
      next
        case False
        from Suc.prems(1) have r: "group_loop meta [Suc i ..< n] S start (this @ [i]) = Inr gs"
          unfolding u group_loop_same [OF ne same False] .
        have "concat S @ this @ [i] = [0 ..< Suc i]" using Suc.prems(2) by simp
        from Suc.hyps(1) [OF _ r this _ Suc.prems(4)] Suc.hyps(2) lt show ?thesis by simp
      qed
    next
      case False
      from Suc.prems(1) have r:
        "group_loop meta [Suc i ..< n] (S @ [this]) (session_of (meta ! i)) [i] = Inr gs"
        unfolding u group_loop_switch [OF ne False] .
      have "concat (S @ [this]) @ [i] = [0 ..< Suc i]" using Suc.prems(2) by simp
      from Suc.hyps(1) [OF _ r this _ Suc.prems(4)] Suc.hyps(2) lt show ?thesis by simp
    qed
  qed
qed

lemma group_sessions_prefix:
  assumes "group_sessions meta = Inr gs"
  shows "\<exists>m \<le> length meta. concat gs = [0 ..< m]"
  using group_loop_prefix [of meta 0 "length meta" "[]" "''LJ001''" "[]" gs] assms
  by (simp add: group_sessions_def)

lemma group_sessions_distinct:
  assumes "group_sessions meta = Inr gs"
  shows "distinct (concat gs)" and "set (concat gs) \<subseteq> {..< length meta}"
proof -
  from group_sessions_prefix [OF assms] obtain m where
    m: "m \<le> length meta" "concat gs = [0 ..< m]" by blast
  show "distinct (concat gs)" by (simp add: m)
  show "set (concat gs) \<subseteq> {..< length meta}" using m by auto
qed


lemma successively_snoc:
  "successively P (xs @ [y]) \<longleftrightarrow> successively P xs \<and> (xs = [] \<or> P (last xs) y)"
  by (simp add: successively_append_iff)

lemma group_loop_maximal_runs:
  fixes meta :: "string list list"
  defines "D \<equiv> (\<lambda>grp grp'. session_of (meta ! last grp) \<noteq> session_of (meta ! hd grp'))"
  defines "H \<equiv> (\<lambda>grp. grp \<noteq> [] \<and> (\<forall>x \<in> set grp. session_of (meta ! x) = session_of (meta ! hd grp)))"
  assumes rows: "[] \<notin> set meta" and n: "n = length meta"
    and last_same: "n = 1 \<or> session_of (meta ! (n - 1)) = session_of (meta ! (n - 2))"
  shows "i < n \<Longrightarrow> concat S @ this = [0 ..< i] \<Longrightarrow> this \<noteq> [] \<Longrightarrow>
     \<forall>x \<in> set this. session_of (meta ! x) = start \<Longrightarrow>
     \<forall>grp \<in> set S. H grp \<Longrightarrow> successively D S \<Longrightarrow>
     S = [] \<or> session_of (meta ! last (last S)) \<noteq> start \<Longrightarrow>
     \<exists>gs. group_loop meta [i ..< n] S start this = Inr gs \<and> concat gs = [0 ..< n]
          \<and> (\<forall>grp \<in> set gs. H grp) \<and> successively D gs"
proof (induction "n - i" arbitrary: i S start this)
  case 0
  then show ?case by simp
next
  case (Suc k)
  note lt = \<open>i < n\<close>
  then have u: "[i ..< n] = i # [Suc i ..< n]" by (simp add: upt_conv_Cons)
  have ne: "meta ! i \<noteq> []" using rows lt n by (metis nth_mem)
  have ipos: "0 < i"
  proof (rule ccontr)
    assume "\<not> 0 < i"
    then have "concat S @ this = []" using Suc.prems(2) by simp
    with Suc.prems(3) show False by simp
  qed
  have "last (concat S @ this) = last [0 ..< i]" using Suc.prems(2) by simp
  then have last_this: "last this = i - 1"
    using Suc.prems(3) ipos by (simp add: last_upt)
  have hd_in: "hd this \<in> set this" and last_in: "last this \<in> set this"
    using Suc.prems(3) by simp_all
  have hd_start: "session_of (meta ! hd this) = start"
    using Suc.prems(4) hd_in by blast
  have prev_start: "session_of (meta ! (i - 1)) = start"
    using Suc.prems(4) last_in last_this by auto
  show ?case
  proof (cases "session_of (meta ! i) = start")
    case same: True
    let ?t = "this @ [i]"
    have Hthis: "H ?t"
      unfolding H_def using Suc.prems(3,4) same hd_start by (auto simp: hd_append)
    show ?thesis
    proof (cases "i = length meta - 1")
      case True
      with lt n have e: "[Suc i ..< n] = []" by simp
      have g: "group_loop meta [i ..< n] S start this = Inr (S @ [?t])"
        unfolding u group_loop_same_last [OF ne same True] e by simp
      have "Suc i = n" using True lt n by arith
      moreover have "concat (S @ [?t]) = [0 ..< Suc i]" using Suc.prems(2) by simp
      ultimately have c: "concat (S @ [?t]) = [0 ..< n]" by simp
      have h: "\<forall>grp \<in> set (S @ [?t]). H grp" using Suc.prems(5) Hthis by simp
      have "S = [] \<or> D (last S) ?t"
        using Suc.prems(7) Suc.prems(3) hd_start by (auto simp: D_def hd_append)
      then have s: "successively D (S @ [?t])"
        using Suc.prems(6) by (simp add: successively_snoc)
      from g c h s show ?thesis by blast
    next
      case False
      with lt n have lt': "Suc i < n" by simp
      have k: "k = n - Suc i" using Suc.hyps(2) by simp
      have c: "concat S @ ?t = [0 ..< Suc i]" using Suc.prems(2) by simp
      have a: "\<forall>x \<in> set ?t. session_of (meta ! x) = start"
        using Suc.prems(4) same by simp
      have "\<exists>gs. group_loop meta [Suc i ..< n] S start ?t = Inr gs \<and> concat gs = [0 ..< n]
          \<and> (\<forall>grp \<in> set gs. H grp) \<and> successively D gs"
        by (rule Suc.hyps(1) [OF k lt' c _ a Suc.prems(5) Suc.prems(6) Suc.prems(7)]) simp
      then show ?thesis
        unfolding u group_loop_same [OF ne same False] .
    qed
  next
    case False
    have not_last: "i \<noteq> n - 1"
    proof
      assume l: "i = n - 1"
      then have "n \<noteq> 1" using ipos by simp
      with last_same have "session_of (meta ! (n - 1)) = session_of (meta ! (n - 2))" by simp
      moreover have "n - 2 = i - 1" using l by simp
      ultimately have "session_of (meta ! i) = start" using prev_start l by simp
      with False show False by simp
    qed
    with lt have lt': "Suc i < n" by simp
    have k: "k = n - Suc i" using Suc.hyps(2) by simp
    let ?S = "S @ [this]"
    have c: "concat ?S @ [i] = [0 ..< Suc i]" using Suc.prems(2) by simp
    have Hthis: "H this"
      unfolding H_def using Suc.prems(3,4) hd_start by simp
    have h: "\<forall>grp \<in> set ?S. H grp" using Suc.prems(5) Hthis by simp
    have "S = [] \<or> D (last S) this"
      using Suc.prems(7) hd_start by (auto simp: D_def)
    then have s: "successively D ?S"
      using Suc.prems(6) by (simp add: successively_snoc)
    have l: "?S = [] \<or> session_of (meta ! last (last ?S)) \<noteq> session_of (meta ! i)"
      using False prev_start last_this by simp
    have "\<exists>gs. group_loop meta [Suc i ..< n] ?S (session_of (meta ! i)) [i] = Inr gs
          \<and> concat gs = [0 ..< n] \<and> (\<forall>grp \<in> set gs. H grp) \<and> successively D gs"
      by (rule Suc.hyps(1) [OF k lt' c _ _ h s l]) simp_all
    then show ?thesis
      unfolding u group_loop_switch [OF ne False] .
  qed
qed

lemma group_loop_first:
  fixes meta :: "string list list"
  assumes rows: "[] \<notin> set meta" and ne: "meta \<noteq> []"
    and first: "session_of (meta ! 0) = start"
    and last_same: "length meta = 1
        \<or> session_of (meta ! (length meta - 1)) = session_of (meta ! (length meta - 2))"
  shows "\<exists>gs. group_loop meta [0 ..< length meta] [] start [] = Inr gs \<and> maximal_runs meta gs"
proof -
  let ?n = "length meta"
  have pos: "0 < ?n" using ne by simp
  then have u: "[0 ..< ?n] = 0 # [Suc 0 ..< ?n]" by (simp add: upt_conv_Cons)
  have r0: "meta ! 0 \<noteq> []" using rows pos by (metis nth_mem)
  show ?thesis
  proof (cases "?n = 1")
    case True
    then have z: "0 = length meta - 1" and e: "[Suc 0 ..< ?n] = []" by simp_all
    have "group_loop meta [0 ..< ?n] [] start [] = Inr [[0]]"
      unfolding u group_loop_same_last [OF r0 first z] e by simp
    moreover have "maximal_runs meta [[0]]"
      using True by (simp add: maximal_runs_def)
    ultimately show ?thesis by blast
  next
    case False
    have lt: "Suc 0 < ?n" using pos False by arith
    then have nz: "0 \<noteq> length meta - 1" by arith
    from False last_same have ls: "?n = 1
        \<or> session_of (meta ! (?n - 1)) = session_of (meta ! (?n - 2))" by simp
    have "\<exists>gs. group_loop meta [Suc 0 ..< ?n] [] start ([] @ [0]) = Inr gs
          \<and> concat gs = [0 ..< ?n]
          \<and> (\<forall>grp \<in> set gs. grp \<noteq> []
                \<and> (\<forall>x \<in> set grp. session_of (meta ! x) = session_of (meta ! hd grp)))
          \<and> successively
               (\<lambda>grp grp'. session_of (meta ! last grp) \<noteq> session_of (meta ! hd grp')) gs"
      by (rule group_loop_maximal_runs [OF rows refl ls lt]) (simp_all add: first)
    then show ?thesis
      unfolding u group_loop_same [OF r0 first nz] maximal_runs_def by simp
  qed
qed

text \<open>Groups closed before the loop reaches a row stay in front of the result.\<close>

lemma group_loop_closed:
  "group_loop meta rest (P @ S) start this =
     (case group_loop meta rest S start this of
        Inl e \<Rightarrow> Inl e
      | Inr gs \<Rightarrow> Inr (P @ gs))"
proof (induction rest arbitrary: S start this)
  case Nil
  show ?case by simp
next
  case (Cons i rest)
  show ?case
  proof (cases "meta ! i")
    case Nil
    then show ?thesis by simp
  next
    case (Cons item_id others)
    show ?thesis
      by (simp add: Cons Let_def Cons.IH)
  qed
qed

text \<open>
  When the first row has another prefix than the one the loop starts from, the loop
  closes the empty group at the first row and goes on as if it had started from the
  prefix of the first row.
\<close>

lemma group_loop_other_start:
  fixes meta :: "string list list"
  assumes rows: "[] \<notin> set meta" and two: "2 \<le> length meta"
    and other: "session_of (meta ! 0) \<noteq> start"
  shows "group_loop meta [0 ..< length meta] [] start [] =
     (case group_loop meta [0 ..< length meta] [] (session_of (meta ! 0)) [] of
        Inl e \<Rightarrow> Inl e
      | Inr gs \<Rightarrow> Inr ([] # gs))"
proof -
  let ?n = "length meta"
  have pos: "0 < ?n" using two by linarith
  then have u: "[0 ..< ?n] = 0 # [Suc 0 ..< ?n]" by (simp add: upt_conv_Cons)
  have r0: "meta ! 0 \<noteq> []" using rows pos by (metis nth_mem)
  have nz: "0 \<noteq> length meta - 1" using two by arith
  have "group_loop meta [0 ..< ?n] [] start []
          = group_loop meta [Suc 0 ..< ?n] ([[]] @ []) (session_of (meta ! 0)) [0]"
    unfolding u group_loop_switch [OF r0 other] by simp
  also have "\<dots> = (case group_loop meta [Suc 0 ..< ?n] [] (session_of (meta ! 0)) [0] of
        Inl e \<Rightarrow> Inl e
      | Inr gs \<Rightarrow> Inr ([[]] @ gs))"
    by (rule group_loop_closed)
  also have "group_loop meta [Suc 0 ..< ?n] [] (session_of (meta ! 0)) [0]
          = group_loop meta [0 ..< ?n] [] (session_of (meta ! 0)) []"
    unfolding u group_loop_same [OF r0 refl nz] by simp
  finally show ?thesis by (simp split: sum.splits)
qed

text \<open>
  Claim C2, as the code has it. The loop starts from the session prefix \<open>LJ001\<close>, and it
  closes the last group only when the last row continues it. For a catalog without empty
  rows whose last row has the prefix of the row before it, the groups of \<open>split_sets\<close>
  are the maximal runs of rows with equal prefix, in file order, when the first row has
  the prefix \<open>LJ001\<close>; when it has another prefix, they are the empty group followed by
  these maximal runs. The same holds for a catalog of one row with the prefix \<open>LJ001\<close>.
\<close>

theorem group_sessions_maximal_runs:
  assumes "[] \<notin> set meta_csv"
    and "(length meta_csv = 1 \<and> session_of (meta_csv ! 0) = ''LJ001'')
        \<or> (2 \<le> length meta_csv
            \<and> session_of (meta_csv ! (length meta_csv - 1))
                = session_of (meta_csv ! (length meta_csv - 2)))"
  shows "\<exists>groups. maximal_runs meta_csv groups
           \<and> group_sessions meta_csv
               = Inr (if session_of (meta_csv ! 0) = ''LJ001'' then groups else [] # groups)"
proof -
  have ne: "meta_csv \<noteq> []" using assms(2) by auto
  have last_same: "length meta_csv = 1
        \<or> session_of (meta_csv ! (length meta_csv - 1))
            = session_of (meta_csv ! (length meta_csv - 2))"
    using assms(2) by blast
  from group_loop_first [OF assms(1) ne refl last_same] obtain gs where
    gs: "group_loop meta_csv [0 ..< length meta_csv] [] (session_of (meta_csv ! 0)) [] = Inr gs"
    and runs: "maximal_runs meta_csv gs"
    by blast
  show ?thesis
  proof (cases "session_of (meta_csv ! 0) = ''LJ001''")
    case True
    with gs have "group_sessions meta_csv = Inr gs" by (simp add: group_sessions_def)
    with runs True show ?thesis by auto
  next
    case False
    with assms(2) have two: "2 \<le> length meta_csv" by blast
    have "group_sessions meta_csv = Inr ([] # gs)"
      unfolding group_sessions_def group_loop_other_start [OF assms(1) two False] gs by simp
    with runs False show ?thesis by auto
  qed
qed

lemma lj002_groups: "group_sessions lj002_rows = Inr [[], [0, 1]]"
  by code_simp

lemma four_rows_groups: "group_sessions four_rows = Inr [[0, 1], [2, 3]]"
  by code_simp

text \<open>
  When the last row starts a new session, its group is never appended: the row is in no
  group.
\<close>

lemma new_session_last_groups: "group_sessions new_session_last_rows = Inr [[0, 1]]"
  by code_simp

text \<open>
  The claim as stated fails when the first prefix is not \<open>LJ001\<close>: for two rows of the
  session \<open>LJ002\<close> the result starts with an empty group.
\<close>

theorem group_sessions_empty_group_counterexample:
  "group_sessions lj002_rows = Inr [[], [0, 1]] \<and> \<not> maximal_runs lj002_rows [[], [0, 1]]"
  by (simp add: lj002_groups maximal_runs_def)

theorem group_sessions_maximal_runs_witness:
  "(\<exists>groups. maximal_runs four_rows groups \<and> group_sessions four_rows = Inr groups)
   \<and> (\<exists>groups. maximal_runs lj002_rows groups \<and> group_sessions lj002_rows = Inr ([] # groups))
   \<and> group_sessions four_rows = Inr [[0, 1], [2, 3]]
   \<and> group_sessions lj002_rows = Inr [[], [0, 1]]
   \<and> maximal_runs four_rows [[0, 1], [2, 3]]
   \<and> maximal_runs lj002_rows [[0, 1]]"
proof -
  have f0: "session_of (four_rows ! 0) = ''LJ001''"
    and f1: "2 \<le> length four_rows
      \<and> session_of (four_rows ! (length four_rows - 1))
          = session_of (four_rows ! (length four_rows - 2))"
    and fr: "[] \<notin> set four_rows"
    by (simp_all add: four_rows_def session_of_def split_dash_first_def)
  have l0: "session_of (lj002_rows ! 0) \<noteq> ''LJ001''"
    and l1: "2 \<le> length lj002_rows
      \<and> session_of (lj002_rows ! (length lj002_rows - 1))
          = session_of (lj002_rows ! (length lj002_rows - 2))"
    and lr: "[] \<notin> set lj002_rows"
    by (simp_all add: lj002_rows_def session_of_def split_dash_first_def)
  from group_sessions_maximal_runs [OF fr disjI2 [OF f1]] f0
  have a: "\<exists>groups. maximal_runs four_rows groups \<and> group_sessions four_rows = Inr groups"
    by simp
  from group_sessions_maximal_runs [OF lr disjI2 [OF l1]] l0
  have b: "\<exists>groups. maximal_runs lj002_rows groups
              \<and> group_sessions lj002_rows = Inr ([] # groups)"
    by simp
  from a have c: "maximal_runs four_rows [[0, 1], [2, 3]]"
    by (auto simp: four_rows_groups)
  from b have d: "maximal_runs lj002_rows [[0, 1]]"
    by (auto simp: lj002_groups)
  from a b c d show ?thesis by (simp add: four_rows_groups lj002_groups)
qed

subsection \<open>The allocation loops of \<open>split_sets\<close>\<close>

lemma shuffle_ok_mset: "shuffle_ok sh \<Longrightarrow> sh g xs = (ys, g') \<Longrightarrow> mset ys = mset xs"
  unfolding shuffle_ok_def by (metis fst_conv)

lemma py_take_del: "py_take xs n @ py_del xs n = xs"
  by (simp add: py_take_def py_del_def)

lemma take_shuffled_mset:
  assumes "shuffle_ok sh"
    and "take_shuffled sh ratio i len (acc, pool, g) = Inr (acc', pool', g')"
  shows "mset acc' + mset pool' = mset acc + mset pool"
proof -
  obtain p g1 where s: "sh g pool = (p, g1)" by (cases "sh g pool")
  from assms(2) s obtain n where
    "acc' = acc @ py_take p n" "pool' = py_del p n"
    by (auto simp: take_shuffled_def split: sum.splits)
  then have "mset acc' + mset pool' = mset acc + mset (py_take p n @ py_del p n)"
    by simp
  also have "\<dots> = mset acc + mset p" by (simp only: py_take_del)
  also have "\<dots> = mset acc + mset pool" using shuffle_ok_mset [OF assms(1) s] by simp
  finally show ?thesis .
qed

lemma split_session_keep:
  assumes "shuffle_ok sh" and "\<not> takes_rest splits split"
    and "split_session sh splits ratio i split len (acc, pool, g) = Inr (acc', pool', g')"
  shows "mset acc' + mset pool' = mset acc + mset pool"
proof -
  consider
    (shuffled) "take_shuffled sh ratio i len (acc, pool, g) = Inr (acc', pool', g')"
    | (other) "(acc, pool, g) = (acc', pool', g')"
    using assms(2,3) unfolding split_session_def takes_rest_def
    by (simp split: if_splits)
  then show ?thesis
  proof cases
    case shuffled
    then show ?thesis by (rule take_shuffled_mset [OF assms(1)])
  next
    case other
    then show ?thesis by simp
  qed
qed

lemma split_session_rest:
  assumes "takes_rest splits split"
  shows "split_session sh splits ratio i split len (acc, pool, g) = Inr (acc @ pool, pool, g)"
  using assms unfolding split_session_def takes_rest_def
  by (elim disjE conjE) simp_all

lemma sessions_loop_keep:
  assumes "shuffle_ok sh" and "\<not> takes_rest splits split"
  shows "sessions_loop sh splits ratio i split lps acc g = Inr (acc', pools', g') \<Longrightarrow>
     mset acc' + mset (concat pools') = mset acc + mset (concat (map snd lps))
     \<and> length pools' = length lps"
proof (induction lps arbitrary: acc g acc' pools' g')
  case Nil
  then show ?case by simp
next
  case (Cons lp lps)
  obtain len pool where lp: "lp = (len, pool)" by (cases lp)
  from Cons.prems lp obtain acc1 pool1 g1 acc2 pools2 g2 where
    a: "split_session sh splits ratio i split len (acc, pool, g) = Inr (acc1, pool1, g1)" and
    b: "sessions_loop sh splits ratio i split lps acc1 g1 = Inr (acc2, pools2, g2)" and
    c: "acc' = acc2" "pools' = pool1 # pools2"
    by (auto split: sum.splits)
  from split_session_keep [OF assms a]
  have 1: "mset acc1 + mset pool1 = mset acc + mset pool" .
  from Cons.IH [OF b]
  have 2: "mset acc2 + mset (concat pools2) = mset acc1 + mset (concat (map snd lps))"
    and 3: "length pools2 = length lps" by simp_all
  have "mset acc' + mset (concat pools')
      = mset pool1 + (mset acc2 + mset (concat pools2))"
    using c by simp
  also have "\<dots> = (mset acc1 + mset pool1) + mset (concat (map snd lps))"
    by (simp only: 2 ac_simps)
  also have "\<dots> = mset acc + mset (concat (map snd (lp # lps)))"
    by (simp add: 1 lp)
  finally show ?case using c 3 by simp
qed

lemma sessions_loop_rest:
  assumes "takes_rest splits split"
  shows "sessions_loop sh splits ratio i split lps acc g
     = Inr (acc @ concat (map snd lps), map snd lps, g)"
proof (induction lps arbitrary: acc)
  case Nil
  then show ?case by simp
next
  case (Cons lp lps)
  obtain len pool where lp: "lp = (len, pool)" by (cases lp)
  show ?case
    unfolding lp sessions_loop.simps split_session_rest [OF assms] by (simp add: Cons.IH)
qed

lemma map_snd_zip_same: "length xs = length ys \<Longrightarrow> map snd (zip xs ys) = ys"
  by simp

text \<open>One pass of the outer loop only takes indices that are in the pools.\<close>

lemma pass_subset:
  assumes "shuffle_ok sh" and "length lens = length pools"
    and "sessions_loop sh splits ratio i split (zip lens pools) [] g = Inr (acc, pools', g')"
  shows "set acc \<subseteq> set (concat pools)"
proof (cases "takes_rest splits split")
  case True
  from assms(3) have "acc = concat pools"
    unfolding sessions_loop_rest [OF True] using assms(2) by auto
  then show ?thesis by simp
next
  case False
  from sessions_loop_keep [OF assms(1) False assms(3)]
  have "mset acc + mset (concat pools') = mset (concat pools)"
    using assms(2) by simp
  then have "set_mset (mset acc) \<subseteq> set_mset (mset (concat pools))"
    by (metis mset_subset_eq_add_left set_mset_mono)
  then show ?thesis by simp
qed

lemma pass_keep:
  assumes "shuffle_ok sh" and "length lens = length pools" and "\<not> takes_rest splits split"
    and "sessions_loop sh splits ratio i split (zip lens pools) [] g = Inr (acc, pools', g')"
    and "distinct (concat pools)"
  shows "distinct (concat pools')" and "set acc \<inter> set (concat pools') = {}"
    and "set (concat pools') \<subseteq> set (concat pools)" and "length lens = length pools'"
proof -
  from sessions_loop_keep [OF assms(1,3,4)]
  have m: "mset (acc @ concat pools') = mset (concat pools)"
    and l: "length pools' = length (zip lens pools)"
    using assms(2) by simp_all
  from m assms(5) have d: "distinct (acc @ concat pools')"
    by (metis mset_eq_imp_distinct_iff)
  from d show "distinct (concat pools')" by simp
  from d show "set acc \<inter> set (concat pools') = {}" by simp
  from m have "set (acc @ concat pools') = set (concat pools)" by (rule mset_eq_setD)
  then show "set (concat pools') \<subseteq> set (concat pools)" by auto
  from l assms(2) show "length lens = length pools'" by simp
qed

lemma disjoint_splits_upd:
  assumes "disjoint_splits ds" and "splits_within ds (U - P)" and "set acc \<subseteq> P"
  shows "disjoint_splits (ds(split \<mapsto> acc))"
  unfolding disjoint_splits_def
proof (intro allI impI)
  fix s t xs ys
  assume a: "s \<noteq> t \<and> (ds(split \<mapsto> acc)) s = Some xs \<and> (ds(split \<mapsto> acc)) t = Some ys"
  show "set xs \<inter> set ys = {}"
  proof (cases "s = split")
    case True
    with a have "xs = acc" "ds t = Some ys" by auto
    with assms(2,3) show ?thesis unfolding splits_within_def by blast
  next
    case False
    show ?thesis
    proof (cases "t = split")
      case True
      with a False have "ys = acc" "ds s = Some xs" by auto
      with assms(2,3) show ?thesis unfolding splits_within_def by blast
    next
      case t: False
      with a False have "ds s = Some xs" "ds t = Some ys" "s \<noteq> t" by auto
      with assms(1) show ?thesis unfolding disjoint_splits_def by blast
    qed
  qed
qed

lemma splits_within_upd:
  assumes "splits_within ds V" and "set acc \<subseteq> W" and "V \<subseteq> W"
  shows "splits_within (ds(split \<mapsto> acc)) W"
  unfolding splits_within_def
proof (intro allI impI)
  fix s xs
  assume a: "(ds(split \<mapsto> acc)) s = Some xs"
  show "set xs \<subseteq> W"
  proof (cases "s = split")
    case True
    with a assms(2) show ?thesis by simp
  next
    case False
    with a have "ds s = Some xs" by simp
    with assms(1,3) show ?thesis unfolding splits_within_def by blast
  qed
qed

lemma splits_loop_disjoint:
  assumes sh: "shuffle_ok sh"
  shows "splits_loop sh splits ratio lens i todo ds pools g = Inr (ds', pools', g') \<Longrightarrow>
     rest_last splits todo \<Longrightarrow> length lens = length pools \<Longrightarrow> distinct (concat pools) \<Longrightarrow>
     disjoint_splits ds \<Longrightarrow> splits_within ds (U - set (concat pools)) \<Longrightarrow>
     set (concat pools) \<subseteq> U \<Longrightarrow>
     disjoint_splits ds' \<and> splits_within ds' U"
proof (induction splits todo arbitrary: i ds pools g rule: rest_last.induct)
  case (1 splits)
  then have "ds' = ds" by simp
  with 1 show ?case unfolding splits_within_def by blast
next
  case (2 splits split)
  from 2(1) obtain acc pools1 g1 where
    p: "sessions_loop sh splits ratio i split (zip lens pools) [] g = Inr (acc, pools1, g1)"
    and d: "ds' = ds(split \<mapsto> acc)"
    by (auto split: sum.splits)
  from pass_subset [OF sh 2(3) p] have sub: "set acc \<subseteq> set (concat pools)" .
  have "disjoint_splits ds'"
    unfolding d by (rule disjoint_splits_upd [OF 2(5) 2(6) sub])
  moreover have "splits_within ds' U"
    unfolding d using 2(6) sub 2(7) by (intro splits_within_upd [of ds "U - set (concat pools)"]) auto
  ultimately show ?case by simp
next
  case (3 splits split next_split todo)
  from 3(3) have keep: "\<not> takes_rest splits split" and rl: "rest_last splits (next_split # todo)"
    by simp_all
  from 3(2) obtain acc pools1 g1 where
    p: "sessions_loop sh splits ratio i split (zip lens pools) [] g = Inr (acc, pools1, g1)"
    and r: "splits_loop sh splits ratio lens (Suc i) (next_split # todo)
              (ds(split \<mapsto> acc)) pools1 g1 = Inr (ds', pools', g')"
    by (auto split: sum.splits)
  from pass_subset [OF sh 3(4) p] have sub: "set acc \<subseteq> set (concat pools)" .
  note k = pass_keep [OF sh 3(4) keep p 3(5)]
  have 1: "disjoint_splits (ds(split \<mapsto> acc))"
    by (rule disjoint_splits_upd [OF 3(6) 3(7) sub])
  have 2: "splits_within (ds(split \<mapsto> acc)) (U - set (concat pools1))"
    using 3(7) sub 3(8) k(2) k(3)
    by (intro splits_within_upd [of ds "U - set (concat pools)"]) auto
  have 3: "set (concat pools1) \<subseteq> U" using k(3) 3(8) by blast
  from "3.IH" [OF r rl k(4) k(1) 1 2 3] show ?case .
qed

subsection \<open>Disjoint splits\<close>

lemma mset_rotate: "mset (rotate n xs) = mset xs"
proof -
  have "mset (drop k xs @ take k xs) = mset (take k xs @ drop k xs)" for k
    by (simp only: mset_append add.commute)
  then show ?thesis by (simp add: rotate_drop_take)
qed

lemma shuffle_ok_rot: "shuffle_ok rot_shuffle"
  by (simp add: shuffle_ok_def rot_shuffle_def mset_rotate)

lemma two_rows_read:
  "read_file two_rows_fs (path_join ''data'' METADATA_CSV) = Inr (Csv two_rows)"
  by (simp add: two_rows_fs_def path_join_def METADATA_CSV_def read_file_def)

lemma two_rows_groups: "group_sessions two_rows = Inr [[0, 1]]"
  by code_simp

lemma n_snts_2_50:
  "n_snts (Suc (Suc 0)) [50, 50] 0 = Inr 1" "n_snts (Suc (Suc 0)) [50, 50] (Suc 0) = Inr 1"
  by (simp_all add: n_snts_def int_truediv_def float_div_trunc_def quot_exponent_def
        round_half_even_def bit_length.simps Let_def)

lemma two_rows_valid_train:
  "split_sets rot_shuffle 0 two_rows_fs ''data'' [''valid'', ''train''] [50, 50]
     = Inr ((Map.empty(''valid'' \<mapsto> [0, 1], ''train'' \<mapsto> [0]), two_rows), Suc 0)"
  by (simp add: split_sets_def two_rows_read split_rows_def two_rows_groups allocate_splits_def
        split_session_def take_shuffled_def rot_shuffle_def n_snts_2_50 py_take_def py_del_def
        slice_stop_def)

lemma two_rows_train_valid:
  "split_sets rot_shuffle 0 two_rows_fs ''data'' [''train'', ''valid''] [50, 50]
     = Inr ((Map.empty(''train'' \<mapsto> [0], ''valid'' \<mapsto> [1]), two_rows), Suc 0)"
  by (simp add: split_sets_def two_rows_read split_rows_def two_rows_groups allocate_splits_def
        split_session_def take_shuffled_def rot_shuffle_def n_snts_2_50 py_take_def py_del_def
        slice_stop_def)

text \<open>
  Claim C1, as the code has it. The outer loop runs over \<open>splits\<close> in the order of the
  list, and a split that takes the rest deletes nothing from the pools. When no split
  but the last of the list takes the rest (so for train, valid, test in this order, and
  for every sublist of it), the lists that \<open>split_sets\<close> returns are pairwise disjoint
  and hold row indices of the catalog only.
\<close>

theorem split_sets_disjoint:
  assumes "shuffle_ok sh" and "rest_last splits splits"
    and "split_sets sh g fs data_folder splits split_ratio = Inr ((data_split, meta_csv), g')"
  shows "disjoint_splits data_split \<and> splits_within data_split {..< length meta_csv}"
proof -
  from assms(3) obtain groups where
    gs: "group_sessions meta_csv = Inr groups" and
    al: "allocate_splits sh g groups splits split_ratio = Inr (data_split, g')"
    by (auto simp: split_sets_def split_rows_def split: sum.splits content.splits)
  from al obtain pools where
    lp: "splits_loop sh splits split_ratio (map length groups) 0 splits Map.empty groups g
           = Inr (data_split, pools, g')"
    by (auto simp: allocate_splits_def split: sum.splits)
  have 1: "disjoint_splits Map.empty" by (simp add: disjoint_splits_def)
  have 2: "splits_within Map.empty ({..< length meta_csv} - set (concat groups))"
    by (simp add: splits_within_def)
  show ?thesis
    by (rule splits_loop_disjoint [OF assms(1) lp assms(2) _ group_sessions_distinct(1) [OF gs]
          1 2 group_sessions_distinct(2) [OF gs]]) simp
qed

theorem split_sets_disjoint_witness:
  "disjoint_splits (Map.empty(''train'' \<mapsto> [0], ''valid'' \<mapsto> [1 :: nat]))
   \<and> splits_within (Map.empty(''train'' \<mapsto> [0], ''valid'' \<mapsto> [1])) {..< length two_rows}"
proof -
  have r: "rest_last [''train'', ''valid''] [''train'', ''valid'']"
    by (simp add: takes_rest_def)
  from split_sets_disjoint [OF shuffle_ok_rot r two_rows_train_valid] show ?thesis .
qed

text \<open>
  With \<open>splits = ["valid", "train"]\<close> the claim fails: \<open>valid\<close> takes both rows of the
  session and deletes nothing, then \<open>train\<close> takes one of them again.
\<close>

theorem split_sets_overlap_counterexample:
  "split_of (split_sets rot_shuffle 0 two_rows_fs ''data'' [''valid'', ''train''] [50, 50])
      ''valid'' = Some [0, 1]
   \<and> split_of (split_sets rot_shuffle 0 two_rows_fs ''data'' [''valid'', ''train''] [50, 50])
      ''train'' = Some [0]
   \<and> \<not> disjoint_splits
        (split_of (split_sets rot_shuffle 0 two_rows_fs ''data'' [''valid'', ''train''] [50, 50]))"
proof -
  let ?ds = "split_of (split_sets rot_shuffle 0 two_rows_fs ''data'' [''valid'', ''train''] [50, 50])"
  have v: "?ds ''valid'' = Some [0, 1]" and t: "?ds ''train'' = Some [0]"
    unfolding two_rows_valid_train by (simp_all add: split_of_def)
  have "\<not> disjoint_splits ?ds"
  proof
    assume "disjoint_splits ?ds"
    then have "''valid'' \<noteq> ''train'' \<and> ?ds ''valid'' = Some [0, 1] \<and> ?ds ''train'' = Some [0]
        \<longrightarrow> set [0, 1 :: nat] \<inter> set [0] = {}"
      unfolding disjoint_splits_def by (elim allE)
    with v t show False by simp
  qed
  with v t show ?thesis by simp
qed

subsection \<open>The order of the splits\<close>

lemma canonical_splits:
  "splits \<in> set (subseqs [''train'', ''valid'', ''test'']) \<longleftrightarrow>
     splits = [''train'', ''valid'', ''test''] \<or> splits = [''train'', ''valid'']
     \<or> splits = [''train'', ''test''] \<or> splits = [''train'']
     \<or> splits = [''valid'', ''test''] \<or> splits = [''valid'']
     \<or> splits = [''test''] \<or> splits = []"
  by (simp add: Let_def)

text \<open>
  Claim C3, as the code has it. \<open>split_sets\<close> allocates the splits in the order of the
  list \<open>splits\<close>. When the list names them in the order train, valid, test (the list is
  a sublist of these three), this is the allocation in the fixed order train, then
  valid, then test.
\<close>

theorem allocate_splits_fixed_order:
  assumes "splits \<in> set (subseqs [''train'', ''valid'', ''test''])"
  shows "allocate_splits sh g index_for_sessions splits split_ratio
           = allocate_fixed_order sh g index_for_sessions splits split_ratio"
  using assms unfolding canonical_splits allocate_splits_def allocate_fixed_order_def
  by (elim disjE) (simp_all split: sum.splits)

theorem allocate_splits_fixed_order_witness:
  "[''train'', ''valid''] \<in> set (subseqs [''train'', ''valid'', ''test''])
   \<and> allocate_splits rot_shuffle 0 [[0, 1]] [''train'', ''valid''] [50, 50]
       = allocate_fixed_order rot_shuffle 0 [[0, 1]] [''train'', ''valid''] [50, 50]"
proof -
  have s: "[''train'', ''valid''] \<in> set (subseqs [''train'', ''valid'', ''test''])"
    by (simp add: canonical_splits)
  from s allocate_splits_fixed_order [OF s, of rot_shuffle 0 "[[0, 1]]" "[50, 50]"]
  show ?thesis by (rule conjI)
qed

text \<open>
  The result is not invariant under a permutation of \<open>splits\<close> with its ratios: for two
  rows of one session and the ratios 50, 50, \<open>valid\<close> gets one row when listed after
  \<open>train\<close> and both rows when listed first.
\<close>

theorem split_sets_order_counterexample:
  "split_of (split_sets rot_shuffle 0 two_rows_fs ''data'' [''train'', ''valid''] [50, 50])
      ''valid'' = Some [1]
   \<and> split_of (split_sets rot_shuffle 0 two_rows_fs ''data'' [''valid'', ''train''] [50, 50])
      ''valid'' = Some [0, 1]"
  unfolding two_rows_valid_train two_rows_train_valid by (simp add: split_of_def)

subsection \<open>The scenario of two sessions\<close>

text \<open>A run of rows of the current session, none of them the last row of the catalog.\<close>

lemma group_loop_run:
  assumes "\<forall>j. i \<le> j \<and> j < k \<longrightarrow> meta ! j \<noteq> [] \<and> session_of (meta ! j) = start"
    and "k < length meta"
  shows "group_loop meta ([i ..< k] @ rest) S start this
           = group_loop meta rest S start (this @ [i ..< k])"
  using assms
proof (induction "k - i" arbitrary: i this)
  case 0
  then show ?case by simp
next
  case (Suc d)
  then have lt: "i < k" by simp
  then have u: "[i ..< k] = i # [Suc i ..< k]" by (simp add: upt_conv_Cons)
  have ne: "meta ! i \<noteq> []" and st: "session_of (meta ! i) = start"
    using Suc.prems(1) lt by auto
  have nl: "i \<noteq> length meta - 1" using lt Suc.prems(2) by simp
  have d: "d = k - Suc i" using Suc.hyps(2) by simp
  have a: "\<forall>j. Suc i \<le> j \<and> j < k \<longrightarrow> meta ! j \<noteq> [] \<and> session_of (meta ! j) = start"
    using Suc.prems(1) by simp
  have "group_loop meta ([i ..< k] @ rest) S start this
          = group_loop meta ([Suc i ..< k] @ rest) S start (this @ [i])"
    unfolding u using group_loop_same [OF ne st nl] by simp
  also have "\<dots> = group_loop meta rest S start ((this @ [i]) @ [Suc i ..< k])"
    by (rule Suc.hyps(1) [OF d a Suc.prems(2)])
  finally show ?case by (simp add: u)
qed

lemma n_snts_90_10:
  "n_snts 10 [90, 10] 0 = Inr 9" "n_snts 5 [90, 10] 0 = Inr 4"
  by (simp_all add: n_snts_def int_truediv_def float_div_trunc_def quot_exponent_def
        round_half_even_def bit_length.simps Let_def)

lemma scenario_groups:
  assumes rows: "[] \<notin> set meta"
    and ids: "map session_of meta = replicate 10 ''LJ001'' @ replicate 5 ''LJ002''"
  shows "group_sessions meta = Inr [[0 ..< 10], [10 ..< 15]]"
proof -
  have len: "length meta = 15" using arg_cong [OF ids, of length] by simp
  have nth: "session_of (meta ! j) = (replicate 10 ''LJ001'' @ replicate 5 ''LJ002'') ! j"
    if "j < 15" for j
    using that len nth_map [of j meta session_of] ids by simp
  have sid: "session_of (meta ! j) = (if j < 10 then ''LJ001'' else ''LJ002'')"
    if "j < 15" for j
  proof (cases "j < 10")
    case True
    then show ?thesis using nth [OF that] by (simp add: nth_append)
  next
    case False
    with that have "j - 10 < 5" by arith
    with False show ?thesis using nth [OF that] by (simp add: nth_append)
  qed
  have ne: "meta ! j \<noteq> []" if "j < 15" for j
    using that len rows by (metis nth_mem)
  have a: "\<forall>j. 0 \<le> j \<and> j < 10 \<longrightarrow> meta ! j \<noteq> [] \<and> session_of (meta ! j) = ''LJ001''"
    using ne sid by simp
  have b: "\<forall>j. 11 \<le> j \<and> j < 14 \<longrightarrow> meta ! j \<noteq> [] \<and> session_of (meta ! j) = ''LJ002''"
    using ne sid by simp
  have s10: "session_of (meta ! 10) = ''LJ002''" using sid [of 10] by simp
  have s14: "session_of (meta ! 14) = ''LJ002''" using sid [of 14] by simp
  have u: "[0 ..< 15] = [0 ..< 10] @ 10 # ([11 ..< 14] @ [14 :: nat])"
    by code_simp
  have l14: "14 = length meta - 1" using len by simp
  have "group_sessions meta
          = group_loop meta (10 # ([11 ..< 14] @ [14])) [] ''LJ001'' ([] @ [0 ..< 10])"
    unfolding group_sessions_def len u
    by (rule group_loop_run [OF a]) (simp add: len)
  also have "\<dots> = group_loop meta ([11 ..< 14] @ [14]) ([] @ [[] @ [0 ..< 10]]) ''LJ002'' [10]"
    using group_loop_switch [OF ne [of 10], of "''LJ001''"] s10 by simp
  also have "\<dots> = group_loop meta [14] ([] @ [[] @ [0 ..< 10]]) ''LJ002'' ([10] @ [11 ..< 14])"
    by (rule group_loop_run [OF b]) (simp add: len)
  also have "\<dots> = Inr (([] @ [[] @ [0 ..< 10]]) @ [([10] @ [11 ..< 14]) @ [14]])"
    using group_loop_same_last [OF ne [of 14] s14 l14] by simp
  also have "\<dots> = Inr [[0 ..< 10], [10 ..< 15]]"
  proof -
    have "[10] @ [11 ..< 14] @ [14] = [10 ..< 15 :: nat]" by code_simp
    then show ?thesis by simp
  qed
  finally show ?thesis .
qed

lemma scenario_allocate:
  assumes "sh g A = (p0, g0)" and "sh g0 B = (p1, g1)"
    and "length A = 10" and "length B = 5"
  shows "allocate_splits sh g [A, B] [''train'', ''valid''] [90, 10]
           = Inr (Map.empty(''train'' \<mapsto> take 9 p0 @ take 4 p1,
                            ''valid'' \<mapsto> drop 9 p0 @ drop 4 p1), g1)"
  by (simp add: allocate_splits_def split_session_def take_shuffled_def assms n_snts_90_10
        py_take_def py_del_def slice_stop_def)

text \<open>
  Claim C7. For a catalog of ten rows of session \<open>LJ001\<close> followed by five rows of
  session \<open>LJ002\<close>, with \<open>splits = ["train", "valid"]\<close> and \<open>split_ratio = [90, 10]\<close>, and
  for every shuffle and generator state: \<open>split_sets\<close> returns; \<open>train\<close> is the first 9
  indices of the shuffled first session and the first 4 of the shuffled second one, 13
  indices, 9 below 10 and 4 from 10 on; \<open>valid\<close> is what is left of the two pools, 2
  indices, so that \<open>train\<close> and \<open>valid\<close> together are the 15 row indices; and the generator
  has been used for the two shuffles of \<open>train\<close> only.
\<close>

theorem split_sets_scenario:
  assumes ok: "shuffle_ok sh"
    and catalog: "read_file fs (path_join data_folder METADATA_CSV) = Inr (Csv meta_csv)"
    and rows: "[] \<notin> set meta_csv"
    and ids: "map session_of meta_csv = replicate 10 ''LJ001'' @ replicate 5 ''LJ002''"
  shows "\<exists>data_split train valid g'.
      split_sets sh g fs data_folder [''train'', ''valid''] [90, 10]
        = Inr ((data_split, meta_csv), g')
      \<and> data_split ''train'' = Some train \<and> data_split ''valid'' = Some valid
      \<and> train = take 9 (fst (sh g [0 ..< 10]))
                 @ take 4 (fst (sh (snd (sh g [0 ..< 10])) [10 ..< 15]))
      \<and> valid = drop 9 (fst (sh g [0 ..< 10]))
                 @ drop 4 (fst (sh (snd (sh g [0 ..< 10])) [10 ..< 15]))
      \<and> g' = snd (sh (snd (sh g [0 ..< 10])) [10 ..< 15])
      \<and> length train = 13
      \<and> length (filter (\<lambda>i. i < 10) train) = 9
      \<and> length (filter (\<lambda>i. 10 \<le> i) train) = 4
      \<and> length valid = 2
      \<and> mset train + mset valid = mset [0 ..< 15]"
proof -
  define A :: "nat list" where "A = [0 ..< 10]"
  define B :: "nat list" where "B = [10 ..< 15]"
  define p0 where "p0 = fst (sh g A)"
  define g0 where "g0 = snd (sh g A)"
  define p1 where "p1 = fst (sh g0 B)"
  define g1 where "g1 = snd (sh g0 B)"
  define train where "train = take 9 p0 @ take 4 p1"
  define valid where "valid = drop 9 p0 @ drop 4 p1"
  define ds where "ds = Map.empty(''train'' \<mapsto> train, ''valid'' \<mapsto> valid)"
  have lA: "length A = 10" and lB: "length B = 5" by (simp_all add: A_def B_def)
  have sA: "set A = {0 ..< 10}" and sB: "set B = {10 ..< 15}"
    unfolding A_def B_def by (simp_all only: set_upt)
  have AB: "A @ B = [0 ..< 15]" unfolding A_def B_def by code_simp
  have s0: "sh g A = (p0, g0)" and s1: "sh g0 B = (p1, g1)"
    by (simp_all add: p0_def g0_def p1_def g1_def)
  have m0: "mset p0 = mset A" by (rule shuffle_ok_mset [OF ok s0])
  have m1: "mset p1 = mset B" by (rule shuffle_ok_mset [OF ok s1])
  have l0: "length p0 = 10" using mset_eq_length [OF m0] lA by simp
  have l1: "length p1 = 5" using mset_eq_length [OF m1] lB by simp
  have e0: "set p0 = {0 ..< 10}" using mset_eq_setD [OF m0] sA by simp
  have e1: "set p1 = {10 ..< 15}" using mset_eq_setD [OF m1] sB by simp
  have t0: "\<forall>x \<in> set (take 9 p0). x < 10"
    using set_take_subset [of 9 p0] e0 by auto
  have t1: "\<forall>x \<in> set (take 4 p1). 10 \<le> x"
    using set_take_subset [of 4 p1] e1 by auto
  have f0: "filter (\<lambda>i. i < 10) (take 9 p0) = take 9 p0"
    and f0': "filter (\<lambda>i. 10 \<le> i) (take 9 p0) = []"
    using t0 by (auto simp: filter_empty_conv)
  have f1: "filter (\<lambda>i. i < 10) (take 4 p1) = []"
    and f1': "filter (\<lambda>i. 10 \<le> i) (take 4 p1) = take 4 p1"
    using t1 by (auto simp: filter_empty_conv)
  have groups: "group_sessions meta_csv = Inr [A, B]"
    unfolding A_def B_def by (rule scenario_groups [OF rows ids])
  have "allocate_splits sh g [A, B] [''train'', ''valid''] [90, 10] = Inr (ds, g1)"
    unfolding ds_def train_def valid_def by (rule scenario_allocate [OF s0 s1 lA lB])
  then have r: "split_sets sh g fs data_folder [''train'', ''valid''] [90, 10]
        = Inr ((ds, meta_csv), g1)"
    by (simp add: split_sets_def catalog split_rows_def groups)
  have k: "ds ''train'' = Some train" "ds ''valid'' = Some valid"
    by (simp_all add: ds_def)
  have c1: "length train = 13" by (simp add: train_def l0 l1)
  have c2: "length (filter (\<lambda>i. i < 10) train) = 9"
    by (simp add: train_def f0 f1 l0)
  have c3: "length (filter (\<lambda>i. 10 \<le> i) train) = 4"
    by (simp add: train_def f0' f1' l1)
  have c4: "length valid = 2" by (simp add: valid_def l0 l1)
  have "mset train + mset valid
          = mset (take 9 p0 @ drop 9 p0) + mset (take 4 p1 @ drop 4 p1)"
    unfolding train_def valid_def by (simp only: mset_append ac_simps)
  also have "\<dots> = mset (A @ B)" by (simp add: m0 m1)
  finally have c5: "mset train + mset valid = mset [0 ..< 15]" unfolding AB .
  have x1: "train = take 9 (fst (sh g [0 ..< 10]))
                 @ take 4 (fst (sh (snd (sh g [0 ..< 10])) [10 ..< 15]))"
    unfolding train_def p0_def p1_def g0_def A_def B_def ..
  have x2: "valid = drop 9 (fst (sh g [0 ..< 10]))
                 @ drop 4 (fst (sh (snd (sh g [0 ..< 10])) [10 ..< 15]))"
    unfolding valid_def p0_def p1_def g0_def A_def B_def ..
  have x3: "g1 = snd (sh (snd (sh g [0 ..< 10])) [10 ..< 15])"
    unfolding g1_def g0_def A_def B_def ..
  show ?thesis
    by (intro exI conjI) (rule r k x1 x2 x3 c1 c2 c3 c4 c5)+
qed

lemma scenario_read:
  "read_file scenario_fs (path_join ''data'' METADATA_CSV) = Inr (Csv scenario_rows)"
  by (simp add: scenario_fs_def path_join_def METADATA_CSV_def read_file_def)

lemma scenario_rows_nonempty: "[] \<notin> set scenario_rows"
  by (simp add: scenario_rows_def)

lemma scenario_rows_sessions:
  "map session_of scenario_rows = replicate 10 ''LJ001'' @ replicate 5 ''LJ002''"
  by code_simp

theorem split_sets_scenario_witness:
  "\<exists>data_split train valid g'.
      split_sets rot_shuffle 3 scenario_fs ''data'' [''train'', ''valid''] [90, 10]
        = Inr ((data_split, scenario_rows), g')
      \<and> data_split ''train'' = Some train \<and> data_split ''valid'' = Some valid
      \<and> train = take 9 (fst (rot_shuffle 3 [0 ..< 10]))
                 @ take 4 (fst (rot_shuffle (snd (rot_shuffle 3 [0 ..< 10])) [10 ..< 15]))
      \<and> valid = drop 9 (fst (rot_shuffle 3 [0 ..< 10]))
                 @ drop 4 (fst (rot_shuffle (snd (rot_shuffle 3 [0 ..< 10])) [10 ..< 15]))
      \<and> g' = snd (rot_shuffle (snd (rot_shuffle 3 [0 ..< 10])) [10 ..< 15])
      \<and> length train = 13
      \<and> length (filter (\<lambda>i. i < 10) train) = 9
      \<and> length (filter (\<lambda>i. 10 \<le> i) train) = 4
      \<and> length valid = 2
      \<and> mset train + mset valid = mset [0 ..< 15]"
  by (rule split_sets_scenario
        [OF shuffle_ok_rot scenario_read scenario_rows_nonempty scenario_rows_sessions])

subsection \<open>\<open>int(a / b)\<close> is the floor of the quotient below \<open>2^53\<close>\<close>

lemma bit_length_upper: "n < 2 ^ bit_length n"
proof (induction n rule: bit_length.induct)
  case (1 n)
  show ?case
  proof (cases "n = 0")
    case True
    then show ?thesis by (simp add: bit_length.simps)
  next
    case False
    from 1 [OF False] have "n div 2 < 2 ^ bit_length (n div 2)" .
    then have "n < 2 * 2 ^ bit_length (n div 2)" by arith
    with False show ?thesis by (simp add: bit_length.simps [of n])
  qed
qed

lemma bit_length_lower: "0 < n \<Longrightarrow> 2 ^ bit_length n \<le> 2 * n"
proof (induction n rule: bit_length.induct)
  case (1 n)
  then have nz: "n \<noteq> 0" by simp
  show ?case
  proof (cases "n div 2 = 0")
    case True
    with nz have "n = 1" by arith
    then show ?thesis by (simp add: bit_length.simps [of "Suc 0"] bit_length.simps [of 0])
  next
    case False
    then have "2 ^ bit_length (n div 2) \<le> 2 * (n div 2)" using 1(1) [OF nz] by simp
    also have "\<dots> \<le> n" by simp
    finally show ?thesis using nz by (simp add: bit_length.simps [of n])
  qed
qed

lemma quot_exponent_scale:
  assumes a: "0 < a" and b: "0 < b" and small: "a < 2 ^ 53"
  shows "\<exists>s. 52 - quot_exponent a b = int s \<and> b * 2 ^ 52 \<le> a * 2 ^ s"
proof -
  define la where "la = bit_length a"
  define lb where "lb = bit_length b"
  have ua: "a < 2 ^ la" and ub: "b < 2 ^ lb"
    unfolding la_def lb_def by (rule bit_length_upper)+
  have wa: "2 ^ la \<le> 2 * a" unfolding la_def by (rule bit_length_lower [OF a])
  have lt: "(2 :: nat) ^ la < 2 ^ 54" using wa small by simp
  have "la < 54" by (rule power_less_imp_less_exp [OF _ lt]) simp
  then have la53: "la \<le> 53" by simp
  have lb1: "1 \<le> lb"
  proof (rule ccontr)
    assume "\<not> 1 \<le> lb"
    then have "lb = 0" by simp
    with ub b show False by simp
  qed
  show ?thesis
  proof (cases "lb \<le> la")
    case True
    then have e0: "int la - int lb = int (la - lb)" by simp
    show ?thesis
    proof (cases "b * 2 ^ (la - lb) \<le> a")
      case t: True
      have q: "quot_exponent a b = int (la - lb)"
        unfolding quot_exponent_def la_def [symmetric] lb_def [symmetric] e0 Let_def
        using t by simp
      have "la - lb + (52 - (la - lb)) = 52" using la53 lb1 True by arith
      then have "b * 2 ^ 52 = (b * 2 ^ (la - lb)) * 2 ^ (52 - (la - lb))"
        by (metis mult.assoc power_add)
      also have "\<dots> \<le> a * 2 ^ (52 - (la - lb))" using t by simp
      finally have "b * 2 ^ 52 \<le> a * 2 ^ (52 - (la - lb))" .
      moreover have "52 - quot_exponent a b = int (52 - (la - lb))"
        unfolding q using la53 lb1 True by arith
      ultimately show ?thesis by blast
    next
      case f: False
      have q: "quot_exponent a b = int (la - lb) - 1"
        unfolding quot_exponent_def la_def [symmetric] lb_def [symmetric] e0 Let_def
        using f by simp
      have "la + (53 - (la - lb)) = lb + 53" using la53 lb1 True by arith
      then have p: "(2 :: nat) ^ la * 2 ^ (53 - (la - lb)) = 2 ^ lb * 2 ^ 53"
        by (metis power_add)
      have "2 * (b * 2 ^ 52) = b * 2 ^ 53" by simp
      also have "\<dots> \<le> 2 ^ lb * 2 ^ 53" using ub by simp
      also have "\<dots> = 2 ^ la * 2 ^ (53 - (la - lb))" using p by simp
      also have "\<dots> \<le> (2 * a) * 2 ^ (53 - (la - lb))" using wa by simp
      finally have "b * 2 ^ 52 \<le> a * 2 ^ (53 - (la - lb))" by simp
      moreover have "52 - quot_exponent a b = int (53 - (la - lb))"
        unfolding q using la53 lb1 True by arith
      ultimately show ?thesis by blast
    qed
  next
    case False
    then have neg: "\<not> 0 \<le> int la - int lb" and n: "nat (- (int la - int lb)) = lb - la"
      by simp_all
    show ?thesis
    proof (cases "b \<le> a * 2 ^ (lb - la)")
      case t: True
      have q: "quot_exponent a b = int la - int lb"
        unfolding quot_exponent_def la_def [symmetric] lb_def [symmetric] Let_def
        using t neg n by simp
      have "b * 2 ^ 52 \<le> (a * 2 ^ (lb - la)) * 2 ^ 52" using t by simp
      also have "\<dots> = a * 2 ^ (52 + (lb - la))" by (simp add: power_add)
      finally have "b * 2 ^ 52 \<le> a * 2 ^ (52 + (lb - la))" .
      moreover have "52 - quot_exponent a b = int (52 + (lb - la))"
        unfolding q using False by arith
      ultimately show ?thesis by blast
    next
      case f: False
      have q: "quot_exponent a b = int la - int lb - 1"
        unfolding quot_exponent_def la_def [symmetric] lb_def [symmetric] Let_def
        using f neg n by simp
      have "la + (lb - la) = lb" using False by arith
      then have p: "(2 :: nat) ^ la * 2 ^ (lb - la) = 2 ^ lb" by (metis power_add)
      have "2 * (b * 2 ^ 52) = b * 2 ^ 53" by simp
      also have "\<dots> \<le> 2 ^ lb * 2 ^ 53" using ub by simp
      also have "\<dots> = (2 ^ la * 2 ^ (lb - la)) * 2 ^ 53" using p by simp
      also have "\<dots> \<le> ((2 * a) * 2 ^ (lb - la)) * 2 ^ 53" using wa by simp
      also have "\<dots> = 2 * (a * 2 ^ (53 + (lb - la)))" by (simp add: power_add)
      finally have "b * 2 ^ 52 \<le> a * 2 ^ (53 + (lb - la))" by simp
      moreover have "52 - quot_exponent a b = int (53 + (lb - la))"
        unfolding q using False by arith
      ultimately show ?thesis by blast
    qed
  qed
qed

lemma round_half_even_cases:
  "round_half_even num den = num div den
   \<or> (round_half_even num den = num div den + 1 \<and> den \<le> 2 * (num mod den))"
  by (simp add: round_half_even_def Let_def)

lemma round_half_even_div:
  assumes b: "0 < b" and P: "0 < P" and bP: "b < 2 * P"
  shows "round_half_even (a * P) b div P = a div b"
proof -
  define k where "k = a div b"
  define d where "d = (a * P) div b"
  define r where "r = (a * P) mod b"
  define M where "M = round_half_even (a * P) b"
  have dr: "a * P = d * b + r" unfolding d_def r_def by simp
  have ka: "k * b \<le> a" unfolding k_def by simp
  have ak: "a < Suc k * b" unfolding k_def using b by (simp add: dividend_less_div_times)
  have "k * P * b = (k * b) * P" by (simp add: ac_simps)
  also have "\<dots> \<le> a * P" using ka by simp
  finally have low: "k * P \<le> d"
    unfolding d_def using b by (simp add: less_eq_div_iff_mult_less_eq)
  have "a * P < (Suc k * b) * P" using ak P by simp
  also have "\<dots> = (Suc k * P) * b" by (simp add: algebra_simps)
  finally have up: "d < Suc k * P"
    unfolding d_def using b by (simp add: div_less_iff_less_mult)
  have M: "M = d \<or> (M = d + 1 \<and> b \<le> 2 * r)"
    unfolding M_def d_def r_def by (rule round_half_even_cases)
  have Mup: "M < Suc k * P"
  proof (rule ccontr)
    assume "\<not> M < Suc k * P"
    with M up have e: "d + 1 = Suc k * P" and br: "b \<le> 2 * r" by auto
    have "a + 1 \<le> Suc k * b" using ak by simp
    then have "(a + 1) * P \<le> (Suc k * b) * P" by (rule mult_le_mono1)
    then have "a * P + P \<le> (Suc k * P) * b" by (simp add: algebra_simps)
    also have "\<dots> = (d + 1) * b" using e by simp
    also have "\<dots> = d * b + b" by (simp add: add_mult_distrib)
    finally have "r + P \<le> b" using dr by simp
    with br bP show False by simp
  qed
  have Mlow: "k * P \<le> M" using M low by auto
  have "M div P = k"
    by (rule div_nat_eqI) (use Mlow Mup in \<open>simp_all add: ac_simps\<close>)
  then show ?thesis unfolding M_def k_def .
qed

text \<open>
  For a dividend below \<open>2^53\<close> the rounding of the quotient to a double never reaches
  the next integer: \<open>int(a / b)\<close> is \<open>a // b\<close>.
\<close>

lemma float_div_trunc_floor:
  assumes b: "0 < b" and small: "a < 2 ^ 53"
  shows "float_div_trunc a b = Inr (a div b)"
proof (cases "a = 0")
  case True
  then show ?thesis by (simp add: float_div_trunc_def)
next
  case False
  then have a: "0 < a" by simp
  from quot_exponent_scale [OF a b small] obtain s where
    s: "52 - quot_exponent a b = int s" and le: "b * 2 ^ 52 \<le> a * 2 ^ s"
    by blast
  define C :: nat where "C = 2 ^ 52"
  have C: "0 < C" and small': "a < 2 * C" and le': "b * C \<le> a * 2 ^ s"
    using small le by (simp_all add: C_def)
  have "a * 2 ^ s < (2 * C) * 2 ^ s" using small' by simp
  with le' have "b * C < (2 * C) * 2 ^ s" by (rule le_less_trans)
  also have "\<dots> = (2 * 2 ^ s) * C" by (simp add: algebra_simps)
  finally have bP: "b < 2 * 2 ^ s" using C by (simp only: mult_less_cancel2)
  have "float_div_trunc a b = Inr (round_half_even (a * 2 ^ s) b div 2 ^ s)"
    using False by (simp add: float_div_trunc_def s Let_def)
  also have "round_half_even (a * 2 ^ s) b div 2 ^ s = a div b"
    by (rule round_half_even_div [OF b _ bP]) simp
  finally show ?thesis .
qed

lemma int_truediv_floor:
  assumes "0 \<le> a" and "0 < b" and "a < 2 ^ 53"
  shows "int_truediv a b = Inr (a div b)"
proof -
  have "nat \<bar>a\<bar> < 2 ^ 53" using assms(1,3) by (simp add: nat_less_iff)
  moreover have "0 < nat \<bar>b\<bar>" using assms(2) by simp
  ultimately have "float_div_trunc (nat \<bar>a\<bar>) (nat \<bar>b\<bar>) = Inr (nat \<bar>a\<bar> div nat \<bar>b\<bar>)"
    by (rule float_div_trunc_floor [rotated])
  moreover have "int (nat \<bar>a\<bar> div nat \<bar>b\<bar>) = a div b"
    using assms(1,2) by (simp add: zdiv_int)
  ultimately show ?thesis using assms(1,2) by (simp add: int_truediv_def)
qed

lemma n_snts_floor:
  assumes "i < length split_ratio" and "0 \<le> split_ratio ! i" and "0 < sum_list split_ratio"
    and "int len * split_ratio ! i < 2 ^ 53"
  shows "n_snts len split_ratio i = Inr ((int len * split_ratio ! i) div sum_list split_ratio)"
  using assms by (simp add: n_snts_def int_truediv_floor)

subsection \<open>The size of the train split\<close>

lemma sum_list_drop_Suc:
  "i < length rs \<Longrightarrow> sum_list (drop i rs) = rs ! i + sum_list (drop (Suc i) rs)"
  for rs :: "int list"
  by (simp add: Cons_nth_drop_Suc [symmetric])

lemma sum_list_drop_nonneg:
  "\<forall>r \<in> set rs. 0 \<le> r \<Longrightarrow> 0 \<le> sum_list (drop i rs)" for rs :: "int list"
  by (rule sum_list_nonneg) (auto dest: in_set_dropD)

lemma sum_list_drop_Suc_le:
  fixes rs :: "int list"
  assumes "\<forall>r \<in> set rs. 0 \<le> r"
  shows "sum_list (drop (Suc i) rs) \<le> sum_list (drop i rs)"
proof (cases "i < length rs")
  case True
  then have "0 \<le> rs ! i" using assms by simp
  then show ?thesis using sum_list_drop_Suc [OF True] by simp
next
  case False
  then show ?thesis by simp
qed

text \<open>
  One shuffled take: when the pool still holds the share of the split, exactly
  \<open>floor(session_len * ratio / sum)\<close> indices are taken.
\<close>

lemma take_shuffled_exact:
  assumes ok: "shuffle_ok sh"
    and nonneg: "\<forall>r \<in> set ratio. 0 \<le> r" and S: "0 < sum_list ratio"
    and safe: "\<forall>r \<in> set ratio. int len * r < 2 ^ 53"
    and inv: "int len * sum_list (drop i ratio) \<le> int (length pool) * sum_list ratio"
    and res: "take_shuffled sh ratio i len (acc, pool, g) = Inr (acc', pool', g')"
  shows "\<exists>c. acc' = acc @ c \<and> int (length c) = (int len * ratio ! i) div sum_list ratio
           \<and> mset c + mset pool' = mset pool
           \<and> int len * sum_list (drop (Suc i) ratio) \<le> int (length pool') * sum_list ratio"
proof -
  obtain p g1 where s: "sh g pool = (p, g1)" by (cases "sh g pool")
  from res s obtain n where
    n: "n_snts len ratio i = Inr n" and
    a: "acc' = acc @ py_take p n" and q: "pool' = py_del p n"
    by (auto simp: take_shuffled_def split: sum.splits)
  have i: "i < length ratio"
    using n by (simp add: n_snts_def split: if_splits)
  then have ri: "ratio ! i \<in> set ratio" by simp
  define x where "x = int len * ratio ! i"
  define S where "S = sum_list ratio"
  have Spos: "0 < S" using assms(3) by (simp add: S_def)
  have x0: "0 \<le> x" using nonneg ri by (simp add: x_def)
  have "n_snts len ratio i = Inr (x div S)"
    unfolding x_def S_def using i nonneg safe ri assms(3) by (intro n_snts_floor) auto
  with n have nv: "n = x div S" by simp
  have n0: "0 \<le> n" unfolding nv using x0 Spos by (simp add: pos_imp_zdiv_nonneg_iff)
  have "x div S * S + x mod S = x" by (rule div_mult_mod_eq)
  moreover have "0 \<le> x mod S" using Spos by simp
  ultimately have nS: "n * S \<le> x" unfolding nv by linarith
  have R: "sum_list (drop i ratio) = ratio ! i + sum_list (drop (Suc i) ratio)"
    by (rule sum_list_drop_Suc [OF i])
  define R' where "R' = sum_list (drop (Suc i) ratio)"
  have R'0: "0 \<le> R'" unfolding R'_def by (rule sum_list_drop_nonneg [OF nonneg])
  have inv': "x + int len * R' \<le> int (length pool) * S"
    using inv unfolding R x_def R'_def S_def by (simp add: algebra_simps)
  have lp: "length p = length pool" using shuffle_ok_mset [OF ok s] by (rule mset_eq_length)
  have "n * S \<le> int (length pool) * S"
  proof -
    have "0 \<le> int len * R'" using R'0 by simp
    with nS inv' show ?thesis by linarith
  qed
  then have nle: "n \<le> int (length pool)" using Spos by simp
  have st: "slice_stop p n = nat n" using n0 by (simp add: slice_stop_def)
  let ?c = "take (nat n) p"
  have c1: "acc' = acc @ ?c" using a st by (simp add: py_take_def)
  have c2: "int (length ?c) = x div S" using nle n0 lp nv by simp
  have "mset ?c + mset (drop (nat n) p) = mset p"
    by (metis append_take_drop_id mset_append)
  then have c3: "mset ?c + mset pool' = mset pool"
    using shuffle_ok_mset [OF ok s] q st by (simp add: py_del_def)
  have lq: "int (length pool') = int (length pool) - n"
    using q st lp nle n0 by (simp add: py_del_def)
  have "int (length pool') * S = int (length pool) * S - n * S"
    unfolding lq by (simp add: algebra_simps)
  with inv' nS have c4: "int len * R' \<le> int (length pool') * S" by linarith
  from c1 c2 c3 c4 show ?thesis unfolding x_def S_def R'_def by blast
qed

lemma split_session_cases:
  assumes "split_session sh splits ratio i split len (acc, pool, g) = Inr (acc', pool', g')"
  shows "take_shuffled sh ratio i len (acc, pool, g) = Inr (acc', pool', g')
     \<or> (split \<noteq> ''train'' \<and> pool' = pool \<and> (\<exists>c. acc' = acc @ c \<and> set c \<subseteq> set pool))"
proof -
  consider
    (shuffled) "take_shuffled sh ratio i len (acc, pool, g) = Inr (acc', pool', g')"
    | (rest) "split \<noteq> ''train''" "(acc @ pool, pool, g) = (acc', pool', g')"
    | (other) "split \<noteq> ''train''" "(acc, pool, g) = (acc', pool', g')"
    using assms unfolding split_session_def by (auto split: if_splits)
  then show ?thesis
  proof cases
    case shuffled
    then show ?thesis by simp
  next
    case rest
    then have "pool' = pool" "acc' = acc @ pool" by auto
    with rest(1) show ?thesis by blast
  next
    case other
    then have "pool' = pool" "acc' = acc @ []" by auto
    then have "\<exists>c. acc' = acc @ c \<and> set c \<subseteq> set pool"
      by (intro exI [of _ "[]"]) simp
    with other(1) \<open>pool' = pool\<close> show ?thesis by blast
  qed
qed

lemma split_session_inv:
  assumes ok: "shuffle_ok sh"
    and nonneg: "\<forall>r \<in> set ratio. 0 \<le> r" and S: "0 < sum_list ratio"
    and safe: "\<forall>r \<in> set ratio. int (length grp) * r < 2 ^ 53"
    and sub: "set pool \<subseteq> set grp"
    and inv: "int (length grp) * sum_list (drop i ratio) \<le> int (length pool) * sum_list ratio"
    and res: "split_session sh splits ratio i split (length grp) (acc, pool, g)
                = Inr (acc', pool', g')"
  shows "set pool' \<subseteq> set grp
     \<and> int (length grp) * sum_list (drop (Suc i) ratio) \<le> int (length pool') * sum_list ratio
     \<and> (\<exists>c. acc' = acc @ c \<and> set c \<subseteq> set grp
            \<and> (split = ''train''
                 \<longrightarrow> int (length c) = (int (length grp) * ratio ! i) div sum_list ratio))"
proof -
  from split_session_cases [OF res] show ?thesis
  proof (elim disjE conjE)
    assume "take_shuffled sh ratio i (length grp) (acc, pool, g) = Inr (acc', pool', g')"
    from take_shuffled_exact [OF ok nonneg S safe inv this] obtain c where
      c: "acc' = acc @ c"
        "int (length c) = (int (length grp) * ratio ! i) div sum_list ratio"
        "mset c + mset pool' = mset pool"
        "int (length grp) * sum_list (drop (Suc i) ratio) \<le> int (length pool') * sum_list ratio"
      by blast
    from c(3) have "set c \<union> set pool' = set pool"
      by (metis mset_append mset_eq_setD set_append)
    with sub have "set c \<subseteq> set grp" "set pool' \<subseteq> set grp" by auto
    with c show ?thesis by blast
  next
    assume nt: "split \<noteq> ''train''" and p: "pool' = pool"
      and "\<exists>c. acc' = acc @ c \<and> set c \<subseteq> set pool"
    then have "\<exists>c. acc' = acc @ c \<and> set c \<subseteq> set grp" using sub by blast
    moreover have "int (length grp) * sum_list (drop (Suc i) ratio)
        \<le> int (length pool) * sum_list ratio"
    proof -
      have "int (length grp) * sum_list (drop (Suc i) ratio)
          \<le> int (length grp) * sum_list (drop i ratio)"
        by (rule mult_left_mono [OF sum_list_drop_Suc_le [OF nonneg]]) simp
      with inv show ?thesis by linarith
    qed
    ultimately show ?thesis using nt p sub by blast
  qed
qed

lemma sessions_loop_inv:
  assumes ok: "shuffle_ok sh"
    and nonneg: "\<forall>r \<in> set ratio. 0 \<le> r" and S: "0 < sum_list ratio"
  shows "list_all2 (\<lambda>grp pool. set pool \<subseteq> set grp
              \<and> int (length grp) * sum_list (drop i ratio)
                  \<le> int (length pool) * sum_list ratio) gs pools \<Longrightarrow>
     \<forall>grp \<in> set gs. \<forall>r \<in> set ratio. int (length grp) * r < 2 ^ 53 \<Longrightarrow>
     sessions_loop sh splits ratio i split (zip (map length gs) pools) acc g
       = Inr (acc', pools', g') \<Longrightarrow>
     list_all2 (\<lambda>grp pool. set pool \<subseteq> set grp
              \<and> int (length grp) * sum_list (drop (Suc i) ratio)
                  \<le> int (length pool) * sum_list ratio) gs pools'
     \<and> (\<exists>cs. acc' = acc @ concat cs
            \<and> list_all2 (\<lambda>grp c. set c \<subseteq> set grp
                 \<and> (split = ''train''
                      \<longrightarrow> int (length c) = (int (length grp) * ratio ! i) div sum_list ratio))
                 gs cs)"
proof (induction gs pools arbitrary: acc g acc' pools' g' rule: list_all2_induct)
  case Nil
  then show ?case by simp
next
  case (Cons grp gs pool pools)
  from Cons.prems(2) obtain acc1 pool1 g1 acc2 pools2 g2 where
    a: "split_session sh splits ratio i split (length grp) (acc, pool, g)
          = Inr (acc1, pool1, g1)" and
    b: "sessions_loop sh splits ratio i split (zip (map length gs) pools) acc1 g1
          = Inr (acc2, pools2, g2)" and
    c: "acc' = acc2" "pools' = pool1 # pools2"
    by (auto split: sum.splits)
  have safe: "\<forall>r \<in> set ratio. int (length grp) * r < 2 ^ 53"
    and safes: "\<forall>grp \<in> set gs. \<forall>r \<in> set ratio. int (length grp) * r < 2 ^ 53"
    using Cons.prems(1) by simp_all
  from Cons.hyps(1) have sub: "set pool \<subseteq> set grp"
    and inv: "int (length grp) * sum_list (drop i ratio) \<le> int (length pool) * sum_list ratio"
    by simp_all
  from split_session_inv [OF ok nonneg S safe sub inv a] obtain ch where
    1: "set pool1 \<subseteq> set grp"
       "int (length grp) * sum_list (drop (Suc i) ratio) \<le> int (length pool1) * sum_list ratio"
    and 2: "acc1 = acc @ ch" "set ch \<subseteq> set grp"
       "split = ''train''
          \<longrightarrow> int (length ch) = (int (length grp) * ratio ! i) div sum_list ratio"
    by blast
  from Cons.IH [OF safes b] obtain cs where
    3: "list_all2 (\<lambda>grp pool. set pool \<subseteq> set grp
              \<and> int (length grp) * sum_list (drop (Suc i) ratio)
                  \<le> int (length pool) * sum_list ratio) gs pools2"
    and 4: "acc2 = acc1 @ concat cs"
       "list_all2 (\<lambda>grp c. set c \<subseteq> set grp
                 \<and> (split = ''train''
                      \<longrightarrow> int (length c) = (int (length grp) * ratio ! i) div sum_list ratio))
                 gs cs"
    by blast
  have "acc' = acc @ concat (ch # cs)" using c 2 4 by simp
  moreover have "list_all2 (\<lambda>grp c. set c \<subseteq> set grp
                 \<and> (split = ''train''
                      \<longrightarrow> int (length c) = (int (length grp) * ratio ! i) div sum_list ratio))
                 (grp # gs) (ch # cs)"
    using 2 4 by simp
  moreover have "list_all2 (\<lambda>grp pool. set pool \<subseteq> set grp
              \<and> int (length grp) * sum_list (drop (Suc i) ratio)
                  \<le> int (length pool) * sum_list ratio) (grp # gs) pools'"
    using c 1 3 by simp
  ultimately show ?case by blast
qed

lemma splits_loop_other_key:
  "splits_loop sh splits ratio lens i todo ds pools g = Inr (ds', pools', g') \<Longrightarrow>
     k \<notin> set todo \<Longrightarrow> ds' k = ds k"
proof (induction todo arbitrary: i ds pools g)
  case Nil
  then show ?case by simp
next
  case (Cons split todo)
  from Cons.prems(1) obtain acc pools1 g1 where
    r: "splits_loop sh splits ratio lens (Suc i) todo (ds(split \<mapsto> acc)) pools1 g1
          = Inr (ds', pools', g')"
    by (auto split: sum.splits)
  from Cons.prems(2) have "k \<notin> set todo" and "k \<noteq> split" by auto
  from Cons.IH [OF r this(1)] this(2) show ?case by simp
qed

lemma splits_loop_train:
  assumes ok: "shuffle_ok sh"
    and nonneg: "\<forall>r \<in> set ratio. 0 \<le> r" and S: "0 < sum_list ratio"
    and safe: "\<forall>grp \<in> set gs. \<forall>r \<in> set ratio. int (length grp) * r < 2 ^ 53"
    and t: "t = ''train''"
  shows "splits_loop sh splits ratio (map length gs) i todo ds pools g = Inr (ds', pools', g') \<Longrightarrow>
     list_all2 (\<lambda>grp pool. set pool \<subseteq> set grp
              \<and> int (length grp) * sum_list (drop i ratio)
                  \<le> int (length pool) * sum_list ratio) gs pools \<Longrightarrow>
     t \<in> set todo \<Longrightarrow> distinct todo \<Longrightarrow>
     \<exists>cs. ds' t = Some (concat cs)
        \<and> list_all2 (\<lambda>grp c. set c \<subseteq> set grp
              \<and> int (length c)
                  = (int (length grp) * ratio ! (i + index_of t todo)) div sum_list ratio)
             gs cs"
proof (induction todo arbitrary: i ds pools g)
  case Nil
  then show ?case by simp
next
  case (Cons split todo)
  from Cons.prems(1) obtain acc pools1 g1 where
    p: "sessions_loop sh splits ratio i split (zip (map length gs) pools) [] g
          = Inr (acc, pools1, g1)" and
    r: "splits_loop sh splits ratio (map length gs) (Suc i) todo (ds(split \<mapsto> acc)) pools1 g1
          = Inr (ds', pools', g')"
    by (auto split: sum.splits)
  from sessions_loop_inv [OF ok nonneg S Cons.prems(2) safe p] obtain cs where
    inv: "list_all2 (\<lambda>grp pool. set pool \<subseteq> set grp
              \<and> int (length grp) * sum_list (drop (Suc i) ratio)
                  \<le> int (length pool) * sum_list ratio) gs pools1"
    and acc: "acc = concat cs"
    and cs: "list_all2 (\<lambda>grp c. set c \<subseteq> set grp
                 \<and> (split = ''train''
                      \<longrightarrow> int (length c) = (int (length grp) * ratio ! i) div sum_list ratio))
                 gs cs"
    by auto
  show ?case
  proof (cases "split = t")
    case True
    with Cons.prems(4) have "t \<notin> set todo" by simp
    from splits_loop_other_key [OF r this] have "ds' t = Some (concat cs)"
      using True acc by simp
    moreover have "list_all2 (\<lambda>grp c. set c \<subseteq> set grp
              \<and> int (length c)
                  = (int (length grp) * ratio ! (i + index_of t (split # todo))) div sum_list ratio)
             gs cs"
      using cs True t by (simp add: list_all2_conv_all_nth)
    ultimately show ?thesis by blast
  next
    case False
    with Cons.prems(3,4) have "t \<in> set todo" "distinct todo" by auto
    from Cons.IH [OF r inv this] obtain cs' where
      "ds' t = Some (concat cs')"
      "list_all2 (\<lambda>grp c. set c \<subseteq> set grp
              \<and> int (length c)
                  = (int (length grp) * ratio ! (Suc i + index_of t todo)) div sum_list ratio)
             gs cs'"
      by blast
    moreover have "i + index_of t (split # todo) = Suc i + index_of t todo"
      using False by simp
    ultimately show ?thesis by auto
  qed
qed

lemma concat_chunks_subset:
  "list_all2 (\<lambda>grp c. set c \<subseteq> set grp) gs cs \<Longrightarrow> set (concat cs) \<subseteq> set (concat gs)"
  by (induction gs cs rule: list_all2_induct) auto

lemma filter_concat_chunks:
  "list_all2 (\<lambda>grp c. set c \<subseteq> set grp) gs cs \<Longrightarrow> distinct (concat gs) \<Longrightarrow> j < length gs \<Longrightarrow>
     filter (\<lambda>x. x \<in> set (gs ! j)) (concat cs) = cs ! j"
proof (induction gs cs arbitrary: j rule: list_all2_induct)
  case Nil
  then show ?case by simp
next
  case (Cons grp gs c cs)
  from Cons.prems(1) have d: "distinct (concat gs)"
    and disj: "set grp \<inter> set (concat gs) = {}" by auto
  have sub: "set (concat cs) \<subseteq> set (concat gs)"
    by (rule concat_chunks_subset [OF Cons.hyps(2)])
  show ?case
  proof (cases j)
    case 0
    have "filter (\<lambda>x. x \<in> set grp) c = c" using Cons.hyps(1) by (auto simp: filter_id_conv)
    moreover have "filter (\<lambda>x. x \<in> set grp) (concat cs) = []"
      using sub disj by (auto simp: filter_empty_conv)
    ultimately show ?thesis using 0 by simp
  next
    case (Suc j')
    with Cons.prems(2) have j': "j' < length gs" by simp
    then have "gs ! j' \<in> set gs" by simp
    then have "set (gs ! j') \<subseteq> set (concat gs)" by auto
    with disj Cons.hyps(1) have "filter (\<lambda>x. x \<in> set (gs ! j')) c = []"
      by (auto simp: filter_empty_conv)
    with Cons.IH [OF d j'] Suc show ?thesis by simp
  qed
qed

text \<open>
  Claim C4, as the code has it. \<open>n_snts\<close> is \<open>int\<close> of a floating-point quotient, which is
  the floor of the exact quotient as long as the product \<open>session_len * ratio\<close> is below
  \<open>2^53\<close>. For ratios that are not negative and have a positive sum, a list \<open>splits\<close>
  without repetition that holds \<open>train\<close>, and groups with \<open>length group * ratio < 2^53\<close>
  for every ratio: the number of indices of a session group in the \<open>train\<close> list that
  \<open>split_sets\<close> returns is \<open>floor(length group * train_ratio / sum(split_ratio))\<close>, with
  \<open>train_ratio\<close> the ratio at the position of \<open>train\<close> in \<open>splits\<close>.
\<close>

theorem split_sets_train_count:
  assumes ok: "shuffle_ok sh"
    and nonneg: "\<forall>r \<in> set split_ratio. 0 \<le> r" and S: "0 < sum_list split_ratio"
    and train: "''train'' \<in> set splits" and dist: "distinct splits"
    and res: "split_sets sh g fs data_folder splits split_ratio
                = Inr ((data_split, meta_csv), g')"
    and groups: "group_sessions meta_csv = Inr groups"
    and safe: "\<forall>grp \<in> set groups. \<forall>r \<in> set split_ratio. int (length grp) * r < 2 ^ 53"
  shows "\<exists>train. data_split ''train'' = Some train
     \<and> (\<forall>j < length groups.
           int (length (filter (\<lambda>x. x \<in> set (groups ! j)) train))
             = (int (length (groups ! j)) * split_ratio ! index_of ''train'' splits)
                 div sum_list split_ratio)"
proof -
  from res groups have
    al: "allocate_splits sh g groups splits split_ratio = Inr (data_split, g')"
    by (auto simp: split_sets_def split_rows_def split: sum.splits content.splits)
  then obtain pools where
    lp: "splits_loop sh splits split_ratio (map length groups) 0 splits Map.empty groups g
           = Inr (data_split, pools, g')"
    by (auto simp: allocate_splits_def split: sum.splits)
  have inv: "list_all2 (\<lambda>grp pool. set pool \<subseteq> set grp
              \<and> int (length grp) * sum_list (drop 0 split_ratio)
                  \<le> int (length pool) * sum_list split_ratio) groups groups"
    by (simp add: list_all2_conv_all_nth)
  from splits_loop_train [OF ok nonneg S safe refl lp inv train dist] obtain cs where
    tr: "data_split ''train'' = Some (concat cs)"
    and cs: "list_all2 (\<lambda>grp c. set c \<subseteq> set grp
              \<and> int (length c)
                  = (int (length grp) * split_ratio ! (0 + index_of ''train'' splits))
                      div sum_list split_ratio)
             groups cs"
    by blast
  have sub: "list_all2 (\<lambda>grp c. set c \<subseteq> set grp) groups cs"
    using cs by (simp add: list_all2_conv_all_nth)
  have d: "distinct (concat groups)" by (rule group_sessions_distinct(1) [OF groups])
  have "\<forall>j < length groups.
           int (length (filter (\<lambda>x. x \<in> set (groups ! j)) (concat cs)))
             = (int (length (groups ! j)) * split_ratio ! index_of ''train'' splits)
                 div sum_list split_ratio"
  proof (intro allI impI)
    fix j
    assume j: "j < length groups"
    have "filter (\<lambda>x. x \<in> set (groups ! j)) (concat cs) = cs ! j"
      by (rule filter_concat_chunks [OF sub d j])
    moreover have "int (length (cs ! j))
        = (int (length (groups ! j)) * split_ratio ! index_of ''train'' splits)
            div sum_list split_ratio"
      using cs j by (simp add: list_all2_conv_all_nth)
    ultimately show "int (length (filter (\<lambda>x. x \<in> set (groups ! j)) (concat cs)))
        = (int (length (groups ! j)) * split_ratio ! index_of ''train'' splits)
            div sum_list split_ratio"
      by simp
  qed
  with tr show ?thesis by blast
qed

lemma one_row_read:
  "read_file one_row_fs (path_join ''data'' METADATA_CSV) = Inr (Csv one_row)"
  by (simp add: one_row_fs_def path_join_def METADATA_CSV_def read_file_def)

lemma one_row_groups: "group_sessions one_row = Inr [[0]]"
  by code_simp

lemma n_snts_huge: "n_snts (Suc 0) [1152921504606846975, 1] 0 = Inr 1"
  by (simp add: n_snts_def int_truediv_def float_div_trunc_def quot_exponent_def
        round_half_even_def bit_length.simps Let_def)

lemma one_row_train_valid:
  "split_sets rot_shuffle 0 one_row_fs ''data'' [''train'', ''valid''] [2 ^ 60 - 1, 1]
     = Inr ((Map.empty(''train'' \<mapsto> [0], ''valid'' \<mapsto> []), one_row), Suc 0)"
  by (simp add: split_sets_def one_row_read split_rows_def one_row_groups allocate_splits_def
        split_session_def take_shuffled_def rot_shuffle_def n_snts_huge py_take_def py_del_def
        slice_stop_def)

text \<open>
  Beyond \<open>2^53\<close> the claim fails: with the ratios \<open>2^60 - 1\<close> and 1 and a session of one
  row, the quotient \<open>(2^60 - 1) / 2^60\<close> rounds to the double 1.0, so \<open>train\<close> gets the row,
  and the floor of the exact quotient is 0.
\<close>

theorem split_sets_train_count_counterexample:
  "group_sessions one_row = Inr [[0]]
   \<and> split_of (split_sets rot_shuffle 0 one_row_fs ''data'' [''train'', ''valid'']
         [2 ^ 60 - 1, 1]) ''train'' = Some [0]
   \<and> (int (length [0 :: nat]) * (2 ^ 60 - 1)) div sum_list [2 ^ 60 - 1, 1] = 0"
  unfolding one_row_train_valid by (simp add: one_row_groups split_of_def)

theorem split_sets_train_count_witness:
  "int (length (filter (\<lambda>x. x \<in> set ([[0, 1]] ! 0)) [0 :: nat]))
     = (int (length ([[0, 1 :: nat]] ! 0)) * [50, 50] ! index_of ''train'' [''train'', ''valid''])
         div sum_list [50, 50]"
proof -
  have 1: "\<forall>r \<in> set [50, 50 :: int]. 0 \<le> r" and 2: "0 < sum_list [50, 50 :: int]"
    and 3: "''train'' \<in> set [''train'', ''valid'']" and 4: "distinct [''train'', ''valid'']"
    and 5: "\<forall>grp \<in> set [[0, 1 :: nat]]. \<forall>r \<in> set [50, 50 :: int]. int (length grp) * r < 2 ^ 53"
    by simp_all
  from split_sets_train_count
    [OF shuffle_ok_rot 1 2 3 4 two_rows_train_valid two_rows_groups 5]
  obtain train where
    t: "(Map.empty(''train'' \<mapsto> [0], ''valid'' \<mapsto> [1 :: nat])) ''train'' = Some train"
    and c: "\<forall>j < length [[0, 1 :: nat]].
           int (length (filter (\<lambda>x. x \<in> set ([[0, 1]] ! j)) train))
             = (int (length ([[0, 1 :: nat]] ! j))
                  * [50, 50] ! index_of ''train'' [''train'', ''valid''])
                 div sum_list [50, 50]"
    by (elim exE conjE)
  from t have "train = [0]" by simp
  moreover have "0 < length [[0, 1 :: nat]]" by simp
  ultimately show ?thesis using c by (elim allE [where x = 0] impE) simp_all
qed
subsection \<open>The skip flag of \<open>prepare_ljspeech\<close>\<close>

text \<open>
  Claim C10. With \<open>skip_prep\<close> set, \<open>prepare_ljspeech\<close> seeds the random generator and
  returns: whatever the other parameters and the world are, it returns without an
  error, the file system it returns is the one it was given (no directory created, no
  manifest, lexicon or configuration file written), no external command has been
  invoked, and the result does not depend on any file (none is read).
\<close>

theorem prepare_ljspeech_skip_prep:
  "prepare_ljspeech seed_rng sh run_cmd str_lower set_order data_folder save_folder splits
     split_ratio seed True kwargs w = Inr (w\<lparr> world_rng := seed_rng seed \<rparr>)"
  by (simp add: prepare_ljspeech_def)

theorem prepare_ljspeech_skip_prep_witness:
  "prepare_ljspeech (\<lambda>seed. seed) (\<lambda>g xs. (rev xs, g + 1)) (\<lambda>cmd files. Map.empty)
     ascii_lower rev
     ''data'' ''save'' [''train'', ''valid''] [90, 10] 1234 True
     [''duration_link'' \<mapsto> ''link'', ''create_symbol_list'' \<mapsto> ''yes'']
     \<lparr> world_fs = Map.empty, world_rng = 0, world_calls = [] \<rparr>
   = Inr \<lparr> world_fs = Map.empty, world_rng = 1234, world_calls = [] \<rparr>"
  using prepare_ljspeech_skip_prep
    [of "\<lambda>seed. seed" "\<lambda>g xs. (rev xs, g + 1)" "\<lambda>cmd files. Map.empty" ascii_lower rev
        "''data''" "''save''" "[''train'', ''valid'']" "[90, 10]" 1234
        "[''duration_link'' \<mapsto> ''link'', ''create_symbol_list'' \<mapsto> ''yes'']"
        "\<lparr> world_fs = Map.empty, world_rng = 0, world_calls = [] \<rparr>"]
  by simp

subsection \<open>Paths\<close>

lemma all_sep_rstrip: "all_sep p \<longleftrightarrow> rstrip_sep p = []"
  by (simp add: all_sep_def rstrip_sep_def list_all_iff dropWhile_eq_Nil_conv)

lemma rstrip_sep_idem: "rstrip_sep (rstrip_sep p) = rstrip_sep p"
  by (simp add: rstrip_sep_def)

lemma rstrip_sep_snoc: "rstrip_sep (a @ ''/'') = rstrip_sep a"
  by (simp add: rstrip_sep_def)

lemma all_sep_snoc: "all_sep (a @ ''/'') = all_sep a"
  by (simp add: all_sep_def)

lemma all_sep_last: "all_sep p \<Longrightarrow> p \<noteq> [] \<Longrightarrow> last p = CHR ''/''"
  by (simp add: all_sep_def list_all_iff)

lemma head_of_join:
  assumes "CHR ''/'' \<notin> set b" and "a = [] \<or> last a = CHR ''/''"
  shows "rev (dropWhile (\<lambda>c. c \<noteq> CHR ''/'') (rev (a @ b))) = a"
proof -
  have "dropWhile (\<lambda>c. c \<noteq> CHR ''/'') (rev b @ rev a) = dropWhile (\<lambda>c. c \<noteq> CHR ''/'') (rev a)"
    using assms(1) by (intro dropWhile_append2) auto
  also have "\<dots> = rev a"
  proof (cases "a = []")
    case True
    then show ?thesis by simp
  next
    case False
    with assms(2) have "hd (rev a) = CHR ''/''" by (simp add: hd_rev)
    with False show ?thesis by (cases "rev a") simp_all
  qed
  finally show ?thesis by simp
qed

text \<open>
  The directory of a file of the folder \<open>a\<close> is \<open>a\<close>: a file name \<open>b\<close> without a separator
  can be written to \<open>os.path.join(a, b)\<close> when \<open>a\<close> is a directory.
\<close>

lemma is_dir_dirname_join:
  assumes b: "CHR ''/'' \<notin> set b" "b \<noteq> []"
  shows "is_dir fs (dirname (path_join a b)) = is_dir fs a"
proof -
  have hdb: "hd b \<noteq> CHR ''/''" using b by (cases b) auto
  show ?thesis
  proof (cases "a = [] \<or> last a = CHR ''/''")
    case True
    have j: "path_join a b = a @ b" using True hdb b by (simp add: path_join_def)
    have d: "dirname (path_join a b) = (if a \<noteq> [] \<and> \<not> all_sep a then rstrip_sep a else a)"
      unfolding j dirname_def head_of_join [OF b(1) True] by (simp add: Let_def)
    show ?thesis
      unfolding d by (auto simp: is_dir_def rstrip_sep_idem all_sep_rstrip)
  next
    case False
    then have ne: "a \<noteq> []" by simp
    have j: "path_join a b = (a @ ''/'') @ b" using False hdb b by (simp add: path_join_def)
    have e: "a @ ''/'' = [] \<or> last (a @ ''/'') = CHR ''/''" by simp
    have ns: "\<not> all_sep a" using False ne all_sep_last by blast
    have d: "dirname (path_join a b) = rstrip_sep a"
      unfolding j dirname_def head_of_join [OF b(1) e]
      using ns by (simp add: Let_def all_sep_snoc rstrip_sep_snoc del: append.simps)
    show ?thesis
      unfolding d using ns ne by (auto simp: is_dir_def rstrip_sep_idem all_sep_rstrip)
  qed
qed

lemma path_exists_join:
  assumes "b \<noteq> []" and "last b \<noteq> CHR ''/''"
  shows "path_exists fs (path_join a b) \<longleftrightarrow> fs (path_join a b) \<noteq> None"
proof -
  have l: "last (path_join a b) = last b" and n: "path_join a b \<noteq> []"
    using assms(1) by (simp_all add: path_join_def)
  have "\<not> all_sep (path_join a b)" using all_sep_last [OF _ n] l assms(2) by auto
  with l n assms(2) show ?thesis by (simp add: path_exists_def)
qed

lemma write_file_in_dir:
  assumes "CHR ''/'' \<notin> set b" and "b \<noteq> []" and "is_dir fs a"
    and "fs (path_join a b) \<noteq> Some Dir"
  shows "write_file fs (path_join a b) c = Inr (fs(path_join a b \<mapsto> File c))"
  using assms(3,4) is_dir_dirname_join [OF assms(1,2), of fs a]
  by (simp add: write_file_def split: option.splits node.splits)

lemma write_file_result:
  "write_file fs p c = Inr fs' \<Longrightarrow> fs' = fs(p \<mapsto> File c)"
  by (auto simp: write_file_def split: option.splits node.splits if_splits)

lemma dirname_examples:
  "dirname ''save/train.json'' = ''save''"
  "dirname ''save/lexicon'' = ''save''"
  "dirname ''pretrained/valid.json'' = ''pretrained''"
  by code_simp+

subsection \<open>\<open>skip\<close>\<close>

lemma skip_loop_True:
  "skip_loop fs save_folder splits b = Inr True \<longleftrightarrow>
     b \<and> (\<forall>s \<in> set splits. \<exists>name. split_files s = Some name
                \<and> path_isfile fs (path_join save_folder name))"
  by (induction splits arbitrary: b) (auto split: option.splits)

lemma skip_loop_total:
  "set splits \<subseteq> {''train'', ''valid'', ''test''}
     \<Longrightarrow> \<exists>r. skip_loop fs save_folder splits b = Inr r"
  by (induction splits arbitrary: b) (auto simp: split_files_def)

lemma path_isfile_iff: "path_isfile fs p \<longleftrightarrow> (\<exists>c. fs p = Some (File c))"
  by (auto simp: path_isfile_def split: option.splits node.splits)

lemma split_files_cases:
  "split_files s = Some name \<longleftrightarrow>
     s = ''train'' \<and> name = ''train.json'' \<or> s = ''valid'' \<and> name = ''valid.json''
     \<or> s = ''test'' \<and> name = ''test.json''"
  by (auto simp: split_files_def TRAIN_JSON_def VALID_JSON_def TEST_JSON_def)

lemma ball_three:
  assumes "t1 \<noteq> t2" "t1 \<noteq> t3" "t2 \<noteq> t3"
  shows "(\<forall>s \<in> A. \<exists>name. (s = t1 \<and> name = n1 \<or> s = t2 \<and> name = n2 \<or> s = t3 \<and> name = n3)
                       \<and> P name)
     \<longleftrightarrow> A \<subseteq> {t1, t2, t3} \<and> (t1 \<in> A \<longrightarrow> P n1) \<and> (t2 \<in> A \<longrightarrow> P n2) \<and> (t3 \<in> A \<longrightarrow> P n3)"
proof
  assume l: "\<forall>s \<in> A. \<exists>name. (s = t1 \<and> name = n1 \<or> s = t2 \<and> name = n2 \<or> s = t3 \<and> name = n3)
                       \<and> P name"
  show "A \<subseteq> {t1, t2, t3} \<and> (t1 \<in> A \<longrightarrow> P n1) \<and> (t2 \<in> A \<longrightarrow> P n2) \<and> (t3 \<in> A \<longrightarrow> P n3)"
  proof (intro conjI impI subsetI)
    fix x assume "x \<in> A" with l show "x \<in> {t1, t2, t3}" by auto
  next
    assume "t1 \<in> A" with l assms show "P n1" by auto
  next
    assume "t2 \<in> A" with l assms show "P n2" by auto
  next
    assume "t3 \<in> A" with l assms show "P n3" by auto
  qed
next
  assume r: "A \<subseteq> {t1, t2, t3} \<and> (t1 \<in> A \<longrightarrow> P n1) \<and> (t2 \<in> A \<longrightarrow> P n2) \<and> (t3 \<in> A \<longrightarrow> P n3)"
  show "\<forall>s \<in> A. \<exists>name. (s = t1 \<and> name = n1 \<or> s = t2 \<and> name = n2 \<or> s = t3 \<and> name = n3)
                       \<and> P name"
  proof
    fix s assume "s \<in> A"
    with r have "s = t1 \<and> P n1 \<or> s = t2 \<and> P n2 \<or> s = t3 \<and> P n3" by auto
    then show "\<exists>name. (s = t1 \<and> name = n1 \<or> s = t2 \<and> name = n2 \<or> s = t3 \<and> name = n3)
                       \<and> P name" by auto
  qed
qed

lemma requested_manifests:
  "(\<forall>s \<in> set splits. \<exists>name. split_files s = Some name
        \<and> path_isfile fs (path_join save_folder name))
   \<longleftrightarrow> set splits \<subseteq> {''train'', ''valid'', ''test''}
       \<and> (''train'' \<in> set splits
            \<longrightarrow> (\<exists>c. fs (path_join save_folder ''train.json'') = Some (File c)))
       \<and> (''valid'' \<in> set splits
            \<longrightarrow> (\<exists>c. fs (path_join save_folder ''valid.json'') = Some (File c)))
       \<and> (''test'' \<in> set splits
            \<longrightarrow> (\<exists>c. fs (path_join save_folder ''test.json'') = Some (File c)))"
  unfolding split_files_cases path_isfile_iff
  by (rule ball_three) simp_all

lemma split_files_json:
  "s \<in> {''train'', ''valid'', ''test''} \<Longrightarrow> split_files s = Some (s @ ''.json'')"
  by (auto simp: split_files_def TRAIN_JSON_def VALID_JSON_def TEST_JSON_def)

text \<open>
  Claim C6. \<open>skip\<close> returns true exactly when every requested split is one of train,
  valid and test, its manifest (\<open>train.json\<close>, \<open>valid.json\<close>, \<open>test.json\<close> in the save
  folder) is a file, and \<open>opt_ljspeech_prepare.pkl\<close> in the save folder is a file that
  holds the current configuration record. For requested splits among train, valid and
  test it returns false when the persisted configuration is not a file, also when
  every manifest exists; when it holds another configuration record; and when the
  manifest of a requested split is not a file.
\<close>

theorem skip_true_iff:
  "(skip fs splits save_folder cnf = Inr True \<longleftrightarrow>
      set splits \<subseteq> {''train'', ''valid'', ''test''}
      \<and> (''train'' \<in> set splits
           \<longrightarrow> (\<exists>c. fs (path_join save_folder ''train.json'') = Some (File c)))
      \<and> (''valid'' \<in> set splits
           \<longrightarrow> (\<exists>c. fs (path_join save_folder ''valid.json'') = Some (File c)))
      \<and> (''test'' \<in> set splits
           \<longrightarrow> (\<exists>c. fs (path_join save_folder ''test.json'') = Some (File c)))
      \<and> fs (path_join save_folder ''opt_ljspeech_prepare.pkl'') = Some (File (Pkl cnf)))
   \<and> (set splits \<subseteq> {''train'', ''valid'', ''test''}
        \<and> (\<forall>c. fs (path_join save_folder ''opt_ljspeech_prepare.pkl'') \<noteq> Some (File c))
        \<longrightarrow> skip fs splits save_folder cnf = Inr False)
   \<and> (set splits \<subseteq> {''train'', ''valid'', ''test''}
        \<and> fs (path_join save_folder ''opt_ljspeech_prepare.pkl'') = Some (File (Pkl old))
        \<and> old \<noteq> cnf
        \<longrightarrow> skip fs splits save_folder cnf = Inr False)
   \<and> (set splits \<subseteq> {''train'', ''valid'', ''test''}
        \<and> s \<in> set splits
        \<and> (\<forall>c. fs (path_join save_folder (s @ ''.json'')) \<noteq> Some (File c))
        \<longrightarrow> skip fs splits save_folder cnf = Inr False)"
proof (intro conjI impI)
  let ?M = "\<forall>s \<in> set splits. \<exists>name. split_files s = Some name
                \<and> path_isfile fs (path_join save_folder name)"
  have opt: "path_join save_folder OPT_FILE = path_join save_folder ''opt_ljspeech_prepare.pkl''"
    by (simp add: OPT_FILE_def)
  have "skip fs splits save_folder cnf = Inr True \<longleftrightarrow>
      ?M \<and> fs (path_join save_folder OPT_FILE) = Some (File (Pkl cnf))"
  proof (cases "skip_loop fs save_folder splits True")
    case (Inl e)
    then have "\<not> ?M"
      using skip_loop_True [of fs save_folder splits True] by simp
    with Inl show ?thesis by (simp add: skip_def)
  next
    case (Inr b)
    then have "b \<longleftrightarrow> ?M"
      using skip_loop_True [of fs save_folder splits True] by auto
    with Inr show ?thesis
      by (auto simp: skip_def load_pkl_def read_file_def path_isfile_iff
               split: option.splits node.splits content.splits)
  qed
  then show "skip fs splits save_folder cnf = Inr True \<longleftrightarrow>
      set splits \<subseteq> {''train'', ''valid'', ''test''}
      \<and> (''train'' \<in> set splits
           \<longrightarrow> (\<exists>c. fs (path_join save_folder ''train.json'') = Some (File c)))
      \<and> (''valid'' \<in> set splits
           \<longrightarrow> (\<exists>c. fs (path_join save_folder ''valid.json'') = Some (File c)))
      \<and> (''test'' \<in> set splits
           \<longrightarrow> (\<exists>c. fs (path_join save_folder ''test.json'') = Some (File c)))
      \<and> fs (path_join save_folder ''opt_ljspeech_prepare.pkl'') = Some (File (Pkl cnf))"
    unfolding requested_manifests opt by simp
next
  assume a: "set splits \<subseteq> {''train'', ''valid'', ''test''}
        \<and> (\<forall>c. fs (path_join save_folder ''opt_ljspeech_prepare.pkl'') \<noteq> Some (File c))"
  then obtain r where "skip_loop fs save_folder splits True = Inr r"
    using skip_loop_total by blast
  moreover have "\<not> path_isfile fs (path_join save_folder OPT_FILE)"
    using a by (simp add: path_isfile_iff OPT_FILE_def)
  ultimately show "skip fs splits save_folder cnf = Inr False"
    by (simp add: skip_def)
next
  assume a: "set splits \<subseteq> {''train'', ''valid'', ''test''}
        \<and> fs (path_join save_folder ''opt_ljspeech_prepare.pkl'') = Some (File (Pkl old))
        \<and> old \<noteq> cnf"
  then obtain r where "skip_loop fs save_folder splits True = Inr r"
    using skip_loop_total by blast
  moreover have "fs (path_join save_folder OPT_FILE) = Some (File (Pkl old))"
    using a by (simp add: OPT_FILE_def)
  ultimately show "skip fs splits save_folder cnf = Inr False"
    using a by (simp add: skip_def path_isfile_def load_pkl_def read_file_def)
next
  assume a: "set splits \<subseteq> {''train'', ''valid'', ''test''}
        \<and> s \<in> set splits
        \<and> (\<forall>c. fs (path_join save_folder (s @ ''.json'')) \<noteq> Some (File c))"
  then obtain r where r: "skip_loop fs save_folder splits True = Inr r"
    using skip_loop_total by blast
  have sf: "split_files s = Some (s @ ''.json'')"
    using a by (intro split_files_json) blast
  have "\<not> path_isfile fs (path_join save_folder (s @ ''.json''))"
    using a by (simp add: path_isfile_iff)
  with sf a have "\<not> (\<forall>s \<in> set splits. \<exists>name. split_files s = Some name
                \<and> path_isfile fs (path_join save_folder name))"
    by force
  then have "\<not> r" using r skip_loop_True [of fs save_folder splits True] by simp
  with r show "skip fs splits save_folder cnf = Inr False"
    by (simp add: skip_def)
qed

lemma example_paths:
  "path_join ''save'' ''train.json'' = ''save/train.json''"
  "path_join ''save'' ''valid.json'' = ''save/valid.json''"
  "path_join ''save'' ''test.json'' = ''save/test.json''"
  "path_join ''save'' ''opt_ljspeech_prepare.pkl'' = ''save/opt_ljspeech_prepare.pkl''"
  "path_join ''save'' ''lexicon'' = ''save/lexicon''"
  by (simp_all add: path_join_def)

theorem skip_true_iff_witness:
  "skip prepared_fs [''train'', ''valid''] ''save'' example_conf = Inr True
   \<and> skip (prepared_fs(''save/valid.json'' := None)) [''train'', ''valid''] ''save''
       example_conf = Inr False
   \<and> skip (prepared_fs(''save/valid.json'' \<mapsto> Dir)) [''train'', ''valid''] ''save''
       example_conf = Inr False
   \<and> skip (prepared_fs(''save/opt_ljspeech_prepare.pkl'' := None)) [''train'', ''valid'']
       ''save'' example_conf = Inr False
   \<and> skip prepared_fs [''train'', ''valid''] ''save'' (example_conf\<lparr> conf_seed := 1 \<rparr>)
       = Inr False"
proof -
  let ?sp = "[''train'', ''valid'']"
  have 1: "skip prepared_fs ?sp ''save'' example_conf = Inr True"
    using skip_true_iff [of prepared_fs ?sp "''save''" example_conf]
    by (simp add: example_paths prepared_fs_def)
  have 2: "skip (prepared_fs(''save/valid.json'' := None)) ?sp ''save'' example_conf
             = Inr False"
    using skip_true_iff [of "prepared_fs(''save/valid.json'' := None)" ?sp "''save''"
        example_conf _ "''valid''"]
    by (simp add: example_paths prepared_fs_def)
  have 3: "skip (prepared_fs(''save/valid.json'' \<mapsto> Dir)) ?sp ''save'' example_conf
             = Inr False"
    using skip_true_iff [of "prepared_fs(''save/valid.json'' \<mapsto> Dir)" ?sp "''save''"
        example_conf _ "''valid''"]
    by (simp add: example_paths prepared_fs_def)
  have 4: "skip (prepared_fs(''save/opt_ljspeech_prepare.pkl'' := None)) ?sp ''save''
             example_conf = Inr False"
    using skip_true_iff [of "prepared_fs(''save/opt_ljspeech_prepare.pkl'' := None)" ?sp
        "''save''" example_conf]
    by (simp add: example_paths prepared_fs_def)
  have 5: "skip prepared_fs ?sp ''save'' (example_conf\<lparr> conf_seed := 1 \<rparr>) = Inr False"
    using skip_true_iff [of prepared_fs ?sp "''save''" "example_conf\<lparr> conf_seed := 1 \<rparr>"
        example_conf]
    by (simp add: example_paths prepared_fs_def example_conf_def)
  from 1 2 3 4 5 show ?thesis by simp
qed

subsection \<open>\<open>prepare_json\<close>\<close>

lemma json_loop_append:
  "json_loop (xs @ ys) jf wv csv df d =
     (case json_loop xs jf wv csv df d of
        Inl e \<Rightarrow> Inl e
      | Inr d1 \<Rightarrow> json_loop ys jf wv csv df d1)"
  by (induction xs arbitrary: d) auto

lemma json_loop_keys:
  "json_loop seg jf wv csv df d = Inr d' \<Longrightarrow>
     fst ` set d' = fst ` set d \<union> (\<lambda>i. csv ! i ! 0) ` set seg"
  by (induction seg arbitrary: d) (auto simp: dom_update split: if_splits)

lemma json_loop_distinct:
  "json_loop seg jf wv csv df d = Inr d' \<Longrightarrow> distinct (map fst d)
     \<Longrightarrow> distinct (map fst d')"
  by (induction seg arbitrary: d) (auto simp: distinct_update split: if_splits)

lemma json_loop_other_key:
  "json_loop seg jf wv csv df d = Inr d' \<Longrightarrow> \<forall>j \<in> set seg. csv ! j ! 0 \<noteq> k \<Longrightarrow>
     map_of d' k = map_of d k"
  by (induction seg arbitrary: d) (auto simp: update_conv' split: if_splits)

lemma json_loop_last_wins:
  assumes "json_loop (pre @ k # post) jf wv csv df d = Inr d'"
    and "\<forall>j \<in> set post. csv ! j ! 0 \<noteq> csv ! k ! 0"
  shows "map_of d' (csv ! k ! 0) = Some (json_entry jf wv csv df k)"
proof -
  from assms(1) obtain d1 where
    r: "json_loop (k # post) jf wv csv df d1 = Inr d'"
    by (auto simp: json_loop_append split: sum.splits)
  from r have
    "json_loop post jf wv csv df (AList.update (csv ! k ! 0) (json_entry jf wv csv df k) d1)
       = Inr d'"
    by (auto split: if_splits)
  from json_loop_other_key [OF this assms(2)] show ?thesis
    by (simp add: update_conv')
qed

lemma snd_set_update: "snd ` set (AList.update k v al) \<subseteq> insert v (snd ` set al)"
  by (induction al) auto

text \<open>
  Every entry of a manifest has the same \<open>segment\<close>: whether \<open>train\<close> occurs in the path
  of the manifest.
\<close>

lemma json_entry_segment:
  "segment (json_entry jf wv csv df i) = str_contains ''train'' jf"
  by (simp add: json_entry_def Let_def)

lemma json_entry_fields:
  "json_entry jf wv csv df k =
     \<lparr> wav = path_join wv (csv ! k ! 0 @ ''.wav''),
       label = csv ! k ! 2,
       segment = str_contains ''train'' jf,
       durations = (case df of None \<Rightarrow> None
                    | Some d \<Rightarrow> Some (path_join d (csv ! k ! 0 @ ''.npy''))) \<rparr>"
  by (simp add: json_entry_def Let_def)

lemma json_loop_segment_gen:
  "json_loop seg jf wv csv df d = Inr d' \<Longrightarrow>
     \<forall>i. segment (json_entry jf wv csv df i) = t \<Longrightarrow>
     \<forall>e \<in> snd ` set d. segment e = t \<Longrightarrow>
     \<forall>e \<in> snd ` set d'. segment e = t"
proof (induction seg arbitrary: d)
  case Nil
  then show ?case by simp
next
  case (Cons i seg)
  let ?d = "AList.update (csv ! i ! 0) (json_entry jf wv csv df i) d"
  from Cons.prems(1) have r: "json_loop seg jf wv csv df ?d = Inr d'"
    by (simp split: if_splits)
  have sub: "snd ` set ?d \<subseteq> insert (json_entry jf wv csv df i) (snd ` set d)"
    by (rule snd_set_update)
  have "\<forall>e \<in> snd ` set ?d. segment e = t"
  proof
    fix e
    assume "e \<in> snd ` set ?d"
    with sub have "e = json_entry jf wv csv df i \<or> e \<in> snd ` set d" by blast
    then show "segment e = t" using Cons.prems(2,3) by blast
  qed
  from Cons.IH [OF r Cons.prems(2) this] show ?case .
qed

lemma json_loop_segment:
  "json_loop seg jf wv csv df [] = Inr d \<Longrightarrow>
     \<forall>e \<in> snd ` set d. segment e = str_contains ''train'' jf"
  using json_loop_segment_gen [of seg jf wv csv df "[]" d "str_contains ''train'' jf"]
  by (simp add: json_entry_segment)

lemma pretrained_valid_path: "path_join ''pretrained'' VALID_JSON = ''pretrained/valid.json''"
  by (simp add: path_join_def VALID_JSON_def)

lemma train_in_pretrained: "str_contains ''train'' ''pretrained/valid.json''"
  by simp

lemma pretrained_loop:
  "json_loop [0] ''pretrained/valid.json'' ''wavs''
       [[''LJ001-0001'', ''normalised'', ''raw'']] None []
     = Inr [(''LJ001-0001'',
              \<lparr> wav = ''wavs/LJ001-0001.wav'', label = ''raw'', segment = True,
                durations = None \<rparr>)]"
  by (simp add: json_entry_def train_in_pretrained path_join_def del: str_contains.simps)

lemma pretrained_write:
  "write_file [''pretrained'' \<mapsto> Dir] ''pretrained/valid.json'' c
     = Inr [''pretrained'' \<mapsto> Dir, ''pretrained/valid.json'' \<mapsto> File c]"
proof -
  have "is_dir [''pretrained'' \<mapsto> Dir] (dirname ''pretrained/valid.json'')"
    unfolding dirname_examples by (simp add: is_dir_def rstrip_sep_def)
  then show ?thesis by (simp add: write_file_def)
qed

text \<open>
  Claim C5 says that \<open>segment\<close> is true in the manifest of the training split and false
  in the others, for every save folder. The code tests whether \<open>train\<close> occurs in the
  whole path \<open>os.path.join(save_folder, ...)\<close>: with the save folder \<open>pretrained\<close> the
  entries of \<open>valid.json\<close> have \<open>segment\<close> true.
\<close>

theorem prepare_json_segment_pretrained:
  "prepare_json [''pretrained'' \<mapsto> Dir] [0] (path_join ''pretrained'' VALID_JSON) ''wavs''
       [[''LJ001-0001'', ''normalised'', ''raw'']] None
     = Inr [''pretrained'' \<mapsto> Dir,
            ''pretrained/valid.json'' \<mapsto>
              File (Json [(''LJ001-0001'',
                \<lparr> wav = ''wavs/LJ001-0001.wav'', label = ''raw'', segment = True,
                  durations = None \<rparr>)])]"
  unfolding pretrained_valid_path prepare_json_def pretrained_loop
  by (simp add: pretrained_write)

lemma single_entry:
  assumes "distinct (map fst jd)" and "fst ` set jd = {a}" and "map_of jd a = Some v"
  shows "jd = [(a, v)]"
proof (cases jd)
  case Nil
  with assms(2) show ?thesis by simp
next
  case (Cons p rest)
  with assms(2) have p: "fst p = a" by auto
  have "rest = []"
  proof (cases rest)
    case Nil
    then show ?thesis .
  next
    case (Cons q r)
    with \<open>jd = p # rest\<close> assms(2) have "fst q = a" by auto
    with p Cons \<open>jd = p # rest\<close> assms(1) show ?thesis by simp
  qed
  with Cons p assms(3) show ?thesis by (cases p) simp
qed

text \<open>
  Claim C9. The manifest \<open>prepare_json\<close> writes has one entry for each item identifier
  among the rows of \<open>seg_lst\<close>. The entry of an identifier comes from the last index of
  \<open>seg_lst\<close> with that identifier: its \<open>wav\<close> is the file of the identifier in the wavs
  folder, its \<open>label\<close> is the third field of that row. When two different rows of
  \<open>seg_lst\<close> have the same identifier, the manifest has fewer entries than \<open>seg_lst\<close> has
  indices.
\<close>

theorem prepare_json_same_item_id:
  assumes ok: "prepare_json fs seg_lst json_file wavs_folder csv df = Inr fs'"
  shows "\<exists>json_dict. fs' = fs(json_file \<mapsto> File (Json json_dict))
           \<and> distinct (map fst json_dict)
           \<and> fst ` set json_dict = (\<lambda>i. csv ! i ! 0) ` set seg_lst
           \<and> (\<forall>pre k post. seg_lst = pre @ k # post
                   \<and> (\<forall>j \<in> set post. csv ! j ! 0 \<noteq> csv ! k ! 0)
                 \<longrightarrow> map_of json_dict (csv ! k ! 0)
                       = Some \<lparr> wav = path_join wavs_folder (csv ! k ! 0 @ ''.wav''),
                                label = csv ! k ! 2,
                                segment = str_contains ''train'' json_file,
                                durations =
                                  (case df of None \<Rightarrow> None
                                   | Some d \<Rightarrow> Some (path_join d (csv ! k ! 0 @ ''.npy''))) \<rparr>)
           \<and> (\<forall>k1 \<in> set seg_lst. \<forall>k2 \<in> set seg_lst.
                 k1 \<noteq> k2 \<and> csv ! k1 ! 0 = csv ! k2 ! 0
                 \<longrightarrow> length json_dict < length seg_lst)"
proof -
  from ok obtain d where
    d: "json_loop seg_lst json_file wavs_folder csv df [] = Inr d" and
    w: "write_file fs json_file (Json d) = Inr fs'"
    by (auto simp: prepare_json_def split: sum.splits)
  from w have f: "fs' = fs(json_file \<mapsto> File (Json d))"
    by (rule write_file_result)
  have dist: "distinct (map fst d)" using json_loop_distinct [OF d] by simp
  have keys: "fst ` set d = (\<lambda>i. csv ! i ! 0) ` set seg_lst"
    using json_loop_keys [OF d] by simp
  have last: "\<forall>pre k post. seg_lst = pre @ k # post
                   \<and> (\<forall>j \<in> set post. csv ! j ! 0 \<noteq> csv ! k ! 0)
                 \<longrightarrow> map_of d (csv ! k ! 0)
                       = Some \<lparr> wav = path_join wavs_folder (csv ! k ! 0 @ ''.wav''),
                                label = csv ! k ! 2,
                                segment = str_contains ''train'' json_file,
                                durations =
                                  (case df of None \<Rightarrow> None
                                   | Some d \<Rightarrow> Some (path_join d (csv ! k ! 0 @ ''.npy''))) \<rparr>"
    unfolding json_entry_fields [symmetric] using d json_loop_last_wins by blast
  have fewer: "\<forall>k1 \<in> set seg_lst. \<forall>k2 \<in> set seg_lst.
                 k1 \<noteq> k2 \<and> csv ! k1 ! 0 = csv ! k2 ! 0 \<longrightarrow> length d < length seg_lst"
  proof (intro ballI impI)
    fix k1 k2
    assume k: "k1 \<in> set seg_lst" "k2 \<in> set seg_lst"
      "k1 \<noteq> k2 \<and> csv ! k1 ! 0 = csv ! k2 ! 0"
    have "length d = card (fst ` set d)"
      using dist by (metis distinct_card length_map set_map)
    also have "\<dots> = card ((\<lambda>i. csv ! i ! 0) ` set seg_lst)" by (simp add: keys)
    also have "\<dots> < card (set seg_lst)"
    proof -
      have "\<not> inj_on (\<lambda>i. csv ! i ! 0) (set seg_lst)"
        using k by (auto simp: inj_on_def)
      then show ?thesis
        by (metis List.finite_set card_image_le eq_card_imp_inj_on le_neq_implies_less)
    qed
    also have "\<dots> \<le> length seg_lst" by (rule card_length)
    finally show "length d < length seg_lst" .
  qed
  from f dist keys last fewer show ?thesis by blast
qed

lemma same_id_loop:
  "\<exists>d. json_loop [0, 1] ''save/train.json'' ''wavs'' same_id_rows None [] = Inr d"
  by (simp add: same_id_rows_def)

lemma same_id_returns:
  "\<exists>fs'. prepare_json [''save'' \<mapsto> Dir] [0, 1] ''save/train.json'' ''wavs'' same_id_rows None
            = Inr fs'"
proof -
  from same_id_loop obtain d where
    d: "json_loop [0, 1] ''save/train.json'' ''wavs'' same_id_rows None [] = Inr d" ..
  have "is_dir [''save'' \<mapsto> Dir] (dirname ''save/train.json'')"
    unfolding dirname_examples by (simp add: is_dir_def rstrip_sep_def)
  then show ?thesis unfolding prepare_json_def d by (simp add: write_file_def)
qed

theorem prepare_json_same_item_id_witness:
  "prepare_json [''save'' \<mapsto> Dir] [0, 1] ''save/train.json'' ''wavs''
      [[''LJ001-0001'', ''n'', ''first''], [''LJ001-0001'', ''n'', ''second'']] None
    = Inr [''save'' \<mapsto> Dir,
           ''save/train.json'' \<mapsto>
             File (Json [(''LJ001-0001'',
               \<lparr> wav = ''wavs/LJ001-0001.wav'', label = ''second'', segment = True,
                 durations = None \<rparr>)])]
   \<and> length [(''LJ001-0001'',
               \<lparr> wav = ''wavs/LJ001-0001.wav'', label = ''second'', segment = True,
                 durations = None \<rparr>)] < length [0, 1 :: nat]"
proof -
  let ?e = "\<lparr> wav = ''wavs/LJ001-0001.wav'', label = ''second'', segment = True,
              durations = None \<rparr>"
  from same_id_returns obtain fs' where
    ok: "prepare_json [''save'' \<mapsto> Dir] [0, 1] ''save/train.json'' ''wavs'' same_id_rows None
           = Inr fs'" ..
  from prepare_json_same_item_id [OF ok] obtain json_dict where
    f: "fs' = [''save'' \<mapsto> Dir, ''save/train.json'' \<mapsto> File (Json json_dict)]"
    and d: "distinct (map fst json_dict)"
    and k: "fst ` set json_dict = (\<lambda>i. same_id_rows ! i ! 0) ` set [0, 1]"
    and l: "\<forall>pre k post. [0, 1] = pre @ k # post
                   \<and> (\<forall>j \<in> set post. same_id_rows ! j ! 0 \<noteq> same_id_rows ! k ! 0)
                 \<longrightarrow> map_of json_dict (same_id_rows ! k ! 0)
                       = Some \<lparr> wav = path_join ''wavs'' (same_id_rows ! k ! 0 @ ''.wav''),
                                label = same_id_rows ! k ! 2,
                                segment = str_contains ''train'' ''save/train.json'',
                                durations =
                                  (case None of None \<Rightarrow> None
                                   | Some d \<Rightarrow>
                                       Some (path_join d (same_id_rows ! k ! 0 @ ''.npy''))) \<rparr>"
    by (elim exE conjE)
  have k': "fst ` set json_dict = {''LJ001-0001''}"
    unfolding k by (simp add: same_id_rows_def)
  have "[0, 1 :: nat] = [0] @ 1 # []
          \<and> (\<forall>j \<in> set []. same_id_rows ! j ! 0 \<noteq> same_id_rows ! 1 ! 0)" by simp
  with l have "map_of json_dict (same_id_rows ! 1 ! 0)
                       = Some \<lparr> wav = path_join ''wavs'' (same_id_rows ! 1 ! 0 @ ''.wav''),
                                label = same_id_rows ! 1 ! 2,
                                segment = str_contains ''train'' ''save/train.json'',
                                durations =
                                  (case None of None \<Rightarrow> None
                                   | Some d \<Rightarrow>
                                       Some (path_join d (same_id_rows ! 1 ! 0 @ ''.npy''))) \<rparr>"
    by (elim allE [where x = "[0]"] allE [where x = 1] allE [where x = "[]"] impE) simp_all
  then have m: "map_of json_dict ''LJ001-0001'' = Some ?e"
    by (simp add: same_id_rows_def path_join_def)
  have "json_dict = [(''LJ001-0001'', ?e)]"
    by (rule single_entry [OF d k' m])
  with ok f show ?thesis by (simp add: same_id_rows_def)
qed

subsection \<open>\<open>create_symbol_file\<close>\<close>

lemma lower_Hello: "ascii_lower ''Hello'' = ''hello''"
  by code_simp

lemma lower_World: "ascii_lower ''World'' = ''world''"
  by code_simp

lemma fold_insert_set: "set (fold List.insert xs cs) = set xs \<union> set cs"
  by (induction xs arbitrary: cs) auto

lemma fold_insert_distinct: "distinct cs \<Longrightarrow> distinct (fold List.insert xs cs)"
  by (induction xs arbitrary: cs) auto

lemma char_set_loop_set:
  "set (char_set_loop str_lower data cs)
     = set cs \<union> (\<Union>e \<in> snd ` set data. set (str_lower (label e)))"
  by (induction str_lower data cs rule: char_set_loop.induct) (auto simp: fold_insert_set)

lemma char_set_loop_distinct: "distinct cs \<Longrightarrow> distinct (char_set_loop str_lower data cs)"
  by (induction str_lower data cs rule: char_set_loop.induct)
     (auto simp: fold_insert_distinct)

lemma list_of_seven:
  "length xs = 7 \<Longrightarrow> \<exists>c1 c2 c3 c4 c5 c6 c7. xs = [c1, c2, c3, c4, c5, c6, c7]"
  by (auto simp: numeral_eq_Suc length_Suc_conv)

lemma hello_world_chars:
  "char_set_loop ascii_lower hello_world_manifest [] = ''drwoleh''"
  unfolding hello_world_manifest_def by (simp add: lower_Hello lower_World)

text \<open>
  Claim C8. When no lexicon file exists, the save folder is a directory and the labels
  of the training manifest are exactly \<open>Hello\<close> and \<open>World\<close> (which \<open>str.lower\<close> turns into
  \<open>hello\<close> and \<open>world\<close>), \<open>create_symbol_file\<close> writes the lexicon file, and its content
  is seven characters with a tab between each two neighbours: h, e, l, o, w, r, d, each
  once, in the order in which the set is iterated (any order: \<open>set_order\<close> is an
  arbitrary rearrangement).
\<close>

theorem create_symbol_file_hello_world:
  assumes perm: "\<forall>xs. mset (set_order xs) = mset xs"
    and lower: "str_lower ''Hello'' = ''hello''" "str_lower ''World'' = ''world''"
    and absent: "\<not> path_exists fs (path_join save_folder ''lexicon'')"
    and folder: "is_dir fs save_folder"
    and data: "load_data_json fs save_json_train = Inr data"
    and labels: "(\<lambda>(k, e). label e) ` set data = {''Hello'', ''World''}"
  shows "\<exists>c1 c2 c3 c4 c5 c6 c7.
      create_symbol_file str_lower set_order fs save_folder save_json_train
        = Inr (fs(path_join save_folder ''lexicon'' \<mapsto>
            File (Text [c1, CHR 0x09, c2, CHR 0x09, c3, CHR 0x09, c4, CHR 0x09,
                        c5, CHR 0x09, c6, CHR 0x09, c7])))
      \<and> distinct [c1, c2, c3, c4, c5, c6, c7]
      \<and> set [c1, c2, c3, c4, c5, c6, c7]
          = {CHR ''h'', CHR ''e'', CHR ''l'', CHR ''o'', CHR ''w'', CHR ''r'', CHR ''d''}"
proof -
  let ?cs = "set_order (char_set_loop str_lower data [])"
  let ?H = "{CHR ''h'', CHR ''e'', CHR ''l'', CHR ''o'', CHR ''w'', CHR ''r'', CHR ''d''}"
  have m: "mset ?cs = mset (char_set_loop str_lower data [])" using perm by blast
  have d0: "distinct (char_set_loop str_lower data [])" by (simp add: char_set_loop_distinct)
  have d: "distinct ?cs" using m d0 by (metis mset_eq_imp_distinct_iff)
  have "(\<Union>e \<in> snd ` set data. set (str_lower (label e)))
          = (\<Union>l \<in> (\<lambda>(k, e). label e) ` set data. set (str_lower l))"
    by force
  also have "\<dots> = set (str_lower ''Hello'') \<union> set (str_lower ''World'')"
    unfolding labels by simp
  finally have s0: "set (char_set_loop str_lower data []) = ?H"
    by (auto simp: char_set_loop_set lower)
  have s: "set ?cs = ?H"
    using m s0 by (metis mset_eq_setD)
  have "card (set ?cs) = 7" unfolding s by simp
  then have l: "length ?cs = 7" using d by (simp add: distinct_card)
  then obtain c1 c2 c3 c4 c5 c6 c7 where cs: "?cs = [c1, c2, c3, c4, c5, c6, c7]"
    using list_of_seven by blast
  have lex: "CHR ''/'' \<notin> set ''lexicon''" "''lexicon'' \<noteq> []" "last ''lexicon'' \<noteq> CHR ''/''"
    by simp_all
  have nd: "fs (path_join save_folder ''lexicon'') = None"
    using absent path_exists_join [OF lex(2,3), of fs save_folder] by simp
  then have "fs (path_join save_folder ''lexicon'') \<noteq> Some Dir" by simp
  from write_file_in_dir [OF lex(1,2) folder this]
  have "create_symbol_file str_lower set_order fs save_folder save_json_train
          = Inr (fs(path_join save_folder ''lexicon'' \<mapsto> File (Text (join_tab ?cs))))"
    using absent data by (simp add: create_symbol_file_def)
  then have "create_symbol_file str_lower set_order fs save_folder save_json_train
        = Inr (fs(path_join save_folder ''lexicon'' \<mapsto>
            File (Text [c1, CHR 0x09, c2, CHR 0x09, c3, CHR 0x09, c4, CHR 0x09,
                        c5, CHR 0x09, c6, CHR 0x09, c7])))"
    unfolding cs by simp
  moreover have "distinct [c1, c2, c3, c4, c5, c6, c7]" using d unfolding cs .
  moreover have "set [c1, c2, c3, c4, c5, c6, c7] = ?H" using s unfolding cs .
  ultimately show ?thesis by blast
qed

lemma hello_world_symbols:
  "create_symbol_file ascii_lower rev hello_world_fs ''save'' ''save/train.json''
     = Inr (hello_world_fs(''save/lexicon'' \<mapsto>
         File (Text [CHR ''h'', CHR 0x09, CHR ''e'', CHR 0x09, CHR ''l'', CHR 0x09,
                     CHR ''o'', CHR 0x09, CHR ''w'', CHR 0x09, CHR ''r'', CHR 0x09,
                     CHR ''d''])))"
proof -
  have 1: "\<not> path_exists hello_world_fs ''save/lexicon''"
    by (simp add: path_exists_def all_sep_def hello_world_fs_def)
  have 2: "load_data_json hello_world_fs ''save/train.json'' = Inr hello_world_manifest"
    by (simp add: load_data_json_def read_file_def hello_world_fs_def)
  have 3: "is_dir hello_world_fs (dirname ''save/lexicon'')"
    unfolding dirname_examples by (simp add: is_dir_def rstrip_sep_def hello_world_fs_def)
  have 4: "hello_world_fs ''save/lexicon'' = None"
    by (simp add: hello_world_fs_def)
  show ?thesis
    unfolding create_symbol_file_def example_paths Let_def
    using 1 by (simp add: 2 3 4 write_file_def hello_world_chars)
qed

theorem create_symbol_file_hello_world_witness:
  "(\<exists>c1 c2 c3 c4 c5 c6 c7.
      create_symbol_file ascii_lower rev hello_world_fs ''save'' ''save/train.json''
        = Inr (hello_world_fs(path_join ''save'' ''lexicon'' \<mapsto>
            File (Text [c1, CHR 0x09, c2, CHR 0x09, c3, CHR 0x09, c4, CHR 0x09,
                        c5, CHR 0x09, c6, CHR 0x09, c7])))
      \<and> distinct [c1, c2, c3, c4, c5, c6, c7]
      \<and> set [c1, c2, c3, c4, c5, c6, c7]
          = {CHR ''h'', CHR ''e'', CHR ''l'', CHR ''o'', CHR ''w'', CHR ''r'', CHR ''d''})
   \<and> create_symbol_file ascii_lower rev hello_world_fs ''save'' ''save/train.json''
       = Inr (hello_world_fs(''save/lexicon'' \<mapsto>
           File (Text [CHR ''h'', CHR 0x09, CHR ''e'', CHR 0x09, CHR ''l'', CHR 0x09,
                       CHR ''o'', CHR 0x09, CHR ''w'', CHR 0x09, CHR ''r'', CHR 0x09,
                       CHR ''d''])))"
proof -
  have 1: "\<forall>xs :: char list. mset (rev xs) = mset xs" by simp
  have 2: "\<not> path_exists hello_world_fs (path_join ''save'' ''lexicon'')"
    by (simp add: example_paths path_exists_def all_sep_def hello_world_fs_def)
  have 3: "is_dir hello_world_fs ''save''"
    by (simp add: is_dir_def rstrip_sep_def hello_world_fs_def)
  have 4: "load_data_json hello_world_fs ''save/train.json'' = Inr hello_world_manifest"
    by (simp add: load_data_json_def read_file_def hello_world_fs_def)
  have 5: "(\<lambda>(k, e). label e) ` set hello_world_manifest = {''Hello'', ''World''}"
    by (simp add: hello_world_manifest_def)
  from create_symbol_file_hello_world [OF 1 lower_Hello lower_World 2 3 4 5]
    hello_world_symbols
  show ?thesis by (rule conjI)
qed

end
